theory Spec2Isabelle
  imports Complex_Main "HOL-Library.Word"
begin

unbundle bit_operations_syntax

text \<open>
  A shallow embedding of audio_async_loopback: the IEC 61937 state machine that extracts
  AC-3 bursts from the captured samples, the arbiter of \<^verbatim>\<open>main.c\<close> that switches between
  the PCM sink and the AC-3 sink, and the ring buffer and rate control of the two sinks.
  The definitions come first, the properties after them.
\<close>

section \<open>IEC 61937 burst extraction (iec_61937.h, iec_61937.c)\<close>

text \<open>
  The state machine of \<^verbatim>\<open>iec_61937.c\<close> with the declarations of \<^verbatim>\<open>iec_61937.h\<close>.
  \<^verbatim>\<open>uint16_t\<close> is \<open>16 word\<close>, \<^verbatim>\<open>uint8_t\<close> is \<open>8 word\<close> and \<^verbatim>\<open>size_t\<close> is \<open>64 word\<close>
  (the program is built for 64-bit Linux), so that \<^verbatim>\<open>payload_len - bytes_received\<close>
  wraps around as it does in C.
\<close>

datatype iec_61937_state =
    IEC_61937_STATE_FIRST_0
  | IEC_61937_STATE_SECOND_0
  | IEC_61937_STATE_THIRD_0
  | IEC_61937_STATE_FOURTH_0
  | IEC_61937_STATE_SYNC_0
  | IEC_61937_STATE_SYNC_1
  | IEC_61937_STATE_DATA_TYPE
  | IEC_61937_STATE_LENGTH
  | IEC_61937_STATE_PAYLOAD

text \<open>The integer value of each enumerator, used by the comparison \<^verbatim>\<open>inst->state > IEC_61937_STATE_SYNC_1\<close>.\<close>

fun state_value :: "iec_61937_state \<Rightarrow> nat" where
  "state_value IEC_61937_STATE_FIRST_0 = 0"
| "state_value IEC_61937_STATE_SECOND_0 = 1"
| "state_value IEC_61937_STATE_THIRD_0 = 2"
| "state_value IEC_61937_STATE_FOURTH_0 = 3"
| "state_value IEC_61937_STATE_SYNC_0 = 4"
| "state_value IEC_61937_STATE_SYNC_1 = 5"
| "state_value IEC_61937_STATE_DATA_TYPE = 6"
| "state_value IEC_61937_STATE_LENGTH = 7"
| "state_value IEC_61937_STATE_PAYLOAD = 8"

definition IEC_61937_MAX_BURST_PAYLOAD :: nat where
  "IEC_61937_MAX_BURST_PAYLOAD = 0x10000"

definition IEC_61937_SYNC_WORD_0 :: "16 word" where
  "IEC_61937_SYNC_WORD_0 = 0xF872"

definition IEC_61937_SYNC_WORD_1 :: "16 word" where
  "IEC_61937_SYNC_WORD_1 = 0x4E1F"

definition IEC_61937_DATA_TYPE_MASK :: "16 word" where
  "IEC_61937_DATA_TYPE_MASK = 0x7F"

definition IEC_61937_DATA_TYPE_AC3 :: "8 word" where
  "IEC_61937_DATA_TYPE_AC3 = 0x01"

definition IEC_61937_DATA_TYPE_EXTENDED :: "8 word" where
  "IEC_61937_DATA_TYPE_EXTENDED = 0x1F"

text \<open>
  \<^verbatim>\<open>struct iec_61937_fsm\<close>. The array \<^verbatim>\<open>payload[IEC_61937_MAX_BURST_PAYLOAD]\<close> is a store
  from indices to bytes; the bound of the array is checked at every write (see
  \<open>payload_put\<close>). The fields \<^verbatim>\<open>packet_cb\<close> and \<^verbatim>\<open>cb_data\<close> are not state: a call of the
  callback is a value returned by the step.
\<close>

record iec_61937_fsm =
  state :: iec_61937_state
  data_type :: "8 word"
  payload_len :: "64 word"
  bytes_received :: "64 word"
  payload :: "nat \<Rightarrow> 8 word"

text \<open>
  One call \<^verbatim>\<open>inst->packet_cb(data_type, len, payload, cb_data)\<close>: the data type, the
  length and the \<open>len\<close> bytes the payload pointer gives access to.
\<close>

datatype packet_cb_call = Packet_cb (cb_data_type: "8 word") (cb_len: "64 word") (cb_payload: "8 word list")

text \<open>A write past the end of a C array is undefined behaviour; the model stops with a fault.\<close>

datatype fault = Payload_write_out_of_bounds | Chunk_read_out_of_bounds

text \<open>\<^verbatim>\<open>iec_61937_fsm_init\<close>: \<^verbatim>\<open>memset\<close> to zero, then the initial state.\<close>

definition iec_61937_fsm_init :: iec_61937_fsm where
  "iec_61937_fsm_init =
     \<lparr>state = IEC_61937_STATE_FIRST_0, data_type = 0, payload_len = 0,
      bytes_received = 0, payload = (\<lambda>_. 0)\<rparr>"

text \<open>\<^verbatim>\<open>__builtin_bswap16\<close>.\<close>

definition bswap16 :: "16 word \<Rightarrow> 16 word" where
  "bswap16 x = push_bit 8 x OR drop_bit 8 x"

text \<open>The statement pair \<^verbatim>\<open>inst->payload[inst->bytes_received] = b; inst->bytes_received++;\<close>.\<close>

definition payload_put :: "iec_61937_fsm \<Rightarrow> 8 word \<Rightarrow> fault + iec_61937_fsm" where
  "payload_put inst b =
     (if unat (bytes_received inst) < IEC_61937_MAX_BURST_PAYLOAD
      then Inr (inst\<lparr>payload := (payload inst)(unat (bytes_received inst) := b),
                     bytes_received := bytes_received inst + 1\<rparr>)
      else Inl Payload_write_out_of_bounds)"

text \<open>
  The \<^verbatim>\<open>switch\<close> of \<^verbatim>\<open>iec_61937_fsm_run\<close> on the byte-swapped sample: the callback call
  made (if any) and the new contents of the structure.
\<close>

definition fsm_switch :: "iec_61937_fsm \<Rightarrow> 16 word \<Rightarrow> fault + (packet_cb_call option \<times> iec_61937_fsm)" where
  "fsm_switch inst sample =
     (case state inst of
        IEC_61937_STATE_FIRST_0 \<Rightarrow>
          (if sample = 0x0000 then Inr (None, inst\<lparr>state := IEC_61937_STATE_SECOND_0\<rparr>)
           else Inr (None, inst))
      | IEC_61937_STATE_SECOND_0 \<Rightarrow>
          (if sample = 0x0000 then Inr (None, inst\<lparr>state := IEC_61937_STATE_THIRD_0\<rparr>)
           else Inr (None, inst\<lparr>state := IEC_61937_STATE_FIRST_0\<rparr>))
      | IEC_61937_STATE_THIRD_0 \<Rightarrow>
          (if sample = 0x0000 then Inr (None, inst\<lparr>state := IEC_61937_STATE_FOURTH_0\<rparr>)
           else Inr (None, inst\<lparr>state := IEC_61937_STATE_FIRST_0\<rparr>))
      | IEC_61937_STATE_FOURTH_0 \<Rightarrow>
          (if sample = 0x0000 then Inr (None, inst\<lparr>state := IEC_61937_STATE_SYNC_0\<rparr>)
           else Inr (None, inst\<lparr>state := IEC_61937_STATE_FIRST_0\<rparr>))
      | IEC_61937_STATE_SYNC_0 \<Rightarrow>
          (if sample = 0x0000 then Inr (None, inst)
           else if sample = IEC_61937_SYNC_WORD_0
           then Inr (None, inst\<lparr>state := IEC_61937_STATE_SYNC_1\<rparr>)
           else Inr (None, inst\<lparr>state := IEC_61937_STATE_FIRST_0\<rparr>))
      | IEC_61937_STATE_SYNC_1 \<Rightarrow>
          (if sample = IEC_61937_SYNC_WORD_1
           then Inr (None, inst\<lparr>state := IEC_61937_STATE_DATA_TYPE\<rparr>)
           else Inr (None, inst\<lparr>state := IEC_61937_STATE_FIRST_0\<rparr>))
      | IEC_61937_STATE_DATA_TYPE \<Rightarrow>
          (let inst1 = inst\<lparr>data_type := ucast (sample AND IEC_61937_DATA_TYPE_MASK)\<rparr>;
               inst2 = inst1\<lparr>state := IEC_61937_STATE_LENGTH\<rparr>
           in if data_type inst2 = IEC_61937_DATA_TYPE_EXTENDED
              then Inr (None, inst2\<lparr>state := IEC_61937_STATE_FIRST_0\<rparr>)
              else Inr (None, inst2))
      | IEC_61937_STATE_LENGTH \<Rightarrow>
          (if data_type inst = IEC_61937_DATA_TYPE_AC3
           then Inr (None, inst\<lparr>bytes_received := 0,
                                 payload_len := ucast sample div 8,
                                 state := IEC_61937_STATE_PAYLOAD\<rparr>)
           else Inr (None, inst\<lparr>state := IEC_61937_STATE_FIRST_0\<rparr>))
      | IEC_61937_STATE_PAYLOAD \<Rightarrow>
          (case (if payload_len inst - bytes_received inst \<ge> 2
                 then (case payload_put inst (ucast (drop_bit 8 sample)) of
                         Inl e \<Rightarrow> Inl e
                       | Inr inst1 \<Rightarrow> payload_put inst1 (ucast sample))
                 else payload_put inst (ucast (drop_bit 8 sample))) of
             Inl e \<Rightarrow> Inl e
           | Inr inst2 \<Rightarrow>
               (if payload_len inst2 = bytes_received inst2
                then Inr (Some (Packet_cb (data_type inst2) (bytes_received inst2)
                                  (map (payload inst2) [0..<unat (bytes_received inst2)])),
                          inst2\<lparr>state := IEC_61937_STATE_FIRST_0\<rparr>)
                else Inr (None, inst2))))"

text \<open>
  \<^verbatim>\<open>iec_61937_fsm_run\<close>: processes one sample; the returned triple is the \<^verbatim>\<open>bool\<close>
  result, the callback call made during the step, and the structure afterwards.
\<close>

definition iec_61937_fsm_run ::
    "iec_61937_fsm \<Rightarrow> 16 word \<Rightarrow> fault + (bool \<times> packet_cb_call option \<times> iec_61937_fsm)" where
  "iec_61937_fsm_run inst s16le_sample =
     (let sample = bswap16 s16le_sample in
      case fsm_switch inst sample of
        Inl e \<Rightarrow> Inl e
      | Inr (cb, inst') \<Rightarrow>
          Inr (state_value (state inst') > state_value IEC_61937_STATE_SYNC_1, cb, inst'))"

text \<open>
  Feeding a sequence of samples, one call of \<^verbatim>\<open>iec_61937_fsm_run\<close> each: the callback
  calls made, in order, and either the structure after the last sample or the fault that
  stopped the run.
\<close>

fun fsm_feed :: "iec_61937_fsm \<Rightarrow> 16 word list \<Rightarrow> packet_cb_call list \<times> (fault + iec_61937_fsm)" where
  "fsm_feed inst [] = ([], Inr inst)"
| "fsm_feed inst (x # xs) =
     (case iec_61937_fsm_run inst x of
        Inl e \<Rightarrow> ([], Inl e)
      | Inr (ret, cb, inst') \<Rightarrow>
          (case fsm_feed inst' xs of (cbs, r) \<Rightarrow> (case cb of None \<Rightarrow> cbs | Some c \<Rightarrow> c # cbs, r)))"

section \<open>Mode arbiter (main.c)\<close>

text \<open>
  The IEC 60958 handler of \<^verbatim>\<open>main.c\<close>. The field \<^verbatim>\<open>state\<close> of \<^verbatim>\<open>struct iec_60958\<close> is
  \<open>state_60958\<close> here (the name \<open>state\<close> is the field of \<open>iec_61937_fsm\<close>). Of the
  embedded \<^verbatim>\<open>struct pcm_sink\<close> and \<^verbatim>\<open>struct ac3_sink\<close> the arbiter model keeps the
  \<^verbatim>\<open>thread_run\<close> flags, which \<^verbatim>\<open>pcm_sink_open\<close>/\<^verbatim>\<open>ac3_sink_open\<close> set and
  \<^verbatim>\<open>pcm_sink_close\<close>/\<^verbatim>\<open>ac3_sink_close\<close> clear; every call into a sink is recorded, in
  program order, as a \<open>sink_call\<close>. The ring buffers of the sinks are modelled in the
  next section.
\<close>

datatype iec_60958_state =
    IEC_60958_STATE_UNKNOWN
  | IEC_60958_STATE_PCM
  | IEC_60958_STATE_61937

definition INPUT_CHUNK_SIZE :: nat where
  "INPUT_CHUNK_SIZE = 512"

definition IEC_61937_DETECTION_WINDOW :: "64 word" where
  "IEC_61937_DETECTION_WINDOW = 64"

datatype sink_call =
    Ac3_sink_open "32 word"
  | Ac3_sink_close
  | Ac3_sink_process "8 word list" "64 word"
  | Pcm_sink_open "32 word"
  | Pcm_sink_close
  | Pcm_sink_process "8 word list"

record iec_60958 =
  state_60958 :: iec_60958_state
  iec_61937_fsm_inst :: iec_61937_fsm
  non_61937_chunks :: "64 word"
  pcm_sink_thread_run :: bool
  ac3_sink_thread_run :: bool
  sink_latency_us :: "32 word"

text \<open>
  \<^verbatim>\<open>iec_61937_packet_handler\<close>, the callback registered with the state machine: the sink
  calls it makes for one callback invocation. It reads the arbiter state at the time of
  the call, that is, during \<^verbatim>\<open>process_chunk_iec_61937\<close>.
\<close>

definition iec_61937_packet_handler :: "iec_60958 \<Rightarrow> packet_cb_call \<Rightarrow> sink_call list" where
  "iec_61937_packet_handler inst cb =
     (if state_60958 inst \<noteq> IEC_60958_STATE_61937 then []
      else if cb_data_type cb \<noteq> IEC_61937_DATA_TYPE_AC3 then []
      else [Ac3_sink_process (cb_payload cb) (cb_len cb)])"

text \<open>
  \<^verbatim>\<open>process_chunk_iec_61937\<close>: the loop \<^verbatim>\<open>for (i = 0; i < chunk_size; i += 2)\<close> over the
  bytes of the chunk, two per sample, low byte first. With an odd \<^verbatim>\<open>chunk_size\<close> the last
  iteration reads \<^verbatim>\<open>chunk[i + 1]\<close> past the chunk.
\<close>

fun process_chunk_iec_61937 ::
    "iec_61937_fsm \<Rightarrow> 8 word list \<Rightarrow> fault + (bool \<times> packet_cb_call list \<times> iec_61937_fsm)" where
  "process_chunk_iec_61937 inst [] = Inr (False, [], inst)"
| "process_chunk_iec_61937 inst [b] = Inl Chunk_read_out_of_bounds"
| "process_chunk_iec_61937 inst (lo # hi # rest) =
     (let sample = ucast lo OR push_bit 8 (ucast hi) in
      case iec_61937_fsm_run inst sample of
        Inl e \<Rightarrow> Inl e
      | Inr (r, cb, inst') \<Rightarrow>
          (case process_chunk_iec_61937 inst' rest of
             Inl e \<Rightarrow> Inl e
           | Inr (ret, cbs, inst'') \<Rightarrow>
               Inr (r \<or> ret, (case cb of None \<Rightarrow> cbs | Some c \<Rightarrow> c # cbs), inst'')))"

text \<open>\<^verbatim>\<open>iec_60958_init\<close>: \<^verbatim>\<open>memset\<close> to zero, state UNKNOWN, state machine initialised.\<close>

definition iec_60958_init :: "32 word \<Rightarrow> iec_60958" where
  "iec_60958_init latency =
     \<lparr>state_60958 = IEC_60958_STATE_UNKNOWN, iec_61937_fsm_inst = iec_61937_fsm_init,
      non_61937_chunks = 0, pcm_sink_thread_run = False, ac3_sink_thread_run = False,
      sink_latency_us = latency\<rparr>"

text \<open>
  \<^verbatim>\<open>iec_60958_process\<close>: one chunk. The result is the list of sink calls made, in order
  (those of the packet handler first, since the callback runs inside
  \<^verbatim>\<open>process_chunk_iec_61937\<close>), and the structure afterwards.
\<close>

definition iec_60958_process :: "iec_60958 \<Rightarrow> 8 word list \<Rightarrow> fault + (sink_call list \<times> iec_60958)" where
  "iec_60958_process inst chunk =
     (case state_60958 inst of
        IEC_60958_STATE_UNKNOWN \<Rightarrow>
          (case process_chunk_iec_61937 (iec_61937_fsm_inst inst) chunk of
             Inl e \<Rightarrow> Inl e
           | Inr (locked, cbs, fsm') \<Rightarrow>
               (let calls = concat (map (iec_61937_packet_handler inst) cbs);
                    inst1 = inst\<lparr>iec_61937_fsm_inst := fsm'\<rparr>
                in if locked
                   then Inr (calls @ [Ac3_sink_open (sink_latency_us inst1)],
                             inst1\<lparr>non_61937_chunks := 0,
                                    state_60958 := IEC_60958_STATE_61937,
                                    ac3_sink_thread_run := True\<rparr>)
                   else (let inst2 = inst1\<lparr>non_61937_chunks := non_61937_chunks inst1 + 1\<rparr>
                         in if non_61937_chunks inst2 \<ge> IEC_61937_DETECTION_WINDOW
                            then Inr (calls @ [Pcm_sink_open (sink_latency_us inst2)],
                                      inst2\<lparr>state_60958 := IEC_60958_STATE_PCM,
                                             pcm_sink_thread_run := True\<rparr>)
                            else Inr (calls, inst2))))
      | IEC_60958_STATE_PCM \<Rightarrow>
          (case process_chunk_iec_61937 (iec_61937_fsm_inst inst) chunk of
             Inl e \<Rightarrow> Inl e
           | Inr (locked, cbs, fsm') \<Rightarrow>
               (let calls = concat (map (iec_61937_packet_handler inst) cbs);
                    inst1 = inst\<lparr>iec_61937_fsm_inst := fsm'\<rparr>
                in if locked
                   then Inr (calls @ [Pcm_sink_close, Ac3_sink_open (sink_latency_us inst1)],
                             inst1\<lparr>pcm_sink_thread_run := False,
                                    non_61937_chunks := 0,
                                    state_60958 := IEC_60958_STATE_61937,
                                    ac3_sink_thread_run := True\<rparr>)
                   else Inr (calls @ [Pcm_sink_process chunk], inst1)))
      | IEC_60958_STATE_61937 \<Rightarrow>
          (case process_chunk_iec_61937 (iec_61937_fsm_inst inst) chunk of
             Inl e \<Rightarrow> Inl e
           | Inr (locked, cbs, fsm') \<Rightarrow>
               (let calls = concat (map (iec_61937_packet_handler inst) cbs);
                    inst1 = inst\<lparr>iec_61937_fsm_inst := fsm'\<rparr>
                in if locked
                   then Inr (calls, inst1\<lparr>non_61937_chunks := 0\<rparr>)
                   else (let inst2 = inst1\<lparr>non_61937_chunks := non_61937_chunks inst1 + 1\<rparr>
                         in if non_61937_chunks inst2 \<ge> IEC_61937_DETECTION_WINDOW
                            then Inr (calls @ [Ac3_sink_close, Pcm_sink_open (sink_latency_us inst2)],
                                      inst2\<lparr>state_60958 := IEC_60958_STATE_PCM,
                                             ac3_sink_thread_run := False,
                                             pcm_sink_thread_run := True\<rparr>)
                            else Inr (calls, inst2)))))"

text \<open>
  The loop of \<^verbatim>\<open>main\<close> over the chunks read so far: the sink calls made, in order, and
  the structure after the last chunk (or the fault that stopped the run).
\<close>

fun iec_60958_feed :: "iec_60958 \<Rightarrow> 8 word list list \<Rightarrow> sink_call list \<times> (fault + iec_60958)" where
  "iec_60958_feed inst [] = ([], Inr inst)"
| "iec_60958_feed inst (chunk # chunks) =
     (case iec_60958_process inst chunk of
        Inl e \<Rightarrow> ([], Inl e)
      | Inr (calls, inst') \<Rightarrow>
          (case iec_60958_feed inst' chunks of (calls', r) \<Rightarrow> (calls @ calls', r)))"

section \<open>Sinks: ring buffer and rate control (pcm_sink.c, ac3_sink.c, config.h)\<close>

text \<open>
  \<^verbatim>\<open>pcm_sink.c\<close> and \<^verbatim>\<open>ac3_sink.c\<close> define the same static functions
  (\<^verbatim>\<open>buffer_space_avail\<close>, \<^verbatim>\<open>buffer_used\<close>, \<^verbatim>\<open>output_thread\<close>, \<^verbatim>\<open>calculate_rate_ratio\<close>)
  over different constants, so each is modelled once, with the constants of the sink as
  an argument. \<^verbatim>\<open>uint32_t\<close> and \<^verbatim>\<open>int32_t\<close> are \<open>32 word\<close> (signed comparisons are
  \<open><s\<close>); a \<^verbatim>\<open>float\<close> sample is only copied, never computed with, and is a \<open>real\<close>.

  \<^verbatim>\<open>double\<close> arithmetic is real arithmetic followed by a rounding function \<open>rnd\<close>, an
  argument of the model: \<open>rnd = (\<lambda>x. x)\<close> is exact arithmetic, and IEEE rounding to
  nearest is one of the monotone functions the theorems below quantify over.
\<close>

record sink_consts =
  SAMPLE_BUFFER_SIZE :: "32 word"
  BUFFER_TARGET_SAMPLES :: "32 word"
  BUFFER_HIST_SIZE :: nat
  LOOP_GAIN :: real
  OUTPUT_CHUNK_SIZE :: "32 word"

definition SAMPLE_BUFFER_SIZE_MASK :: "sink_consts \<Rightarrow> 32 word" where
  "SAMPLE_BUFFER_SIZE_MASK c = SAMPLE_BUFFER_SIZE c - 1"

text \<open>
  The constants of \<^verbatim>\<open>config.h\<close>. The macros \<^verbatim>\<open>PCM_SINK_BUFFER_HIST_SIZE\<close> and
  \<^verbatim>\<open>AC3_SINK_BUFFER_HIST_SIZE\<close> used by the sinks are not defined there; the history
  size is the argument \<open>H\<close>.
\<close>

definition pcm_sink_consts :: "nat \<Rightarrow> sink_consts" where
  "pcm_sink_consts H =
     \<lparr>SAMPLE_BUFFER_SIZE = 2048, BUFFER_TARGET_SAMPLES = 128, BUFFER_HIST_SIZE = H,
      LOOP_GAIN = 0.000004, OUTPUT_CHUNK_SIZE = 32\<rparr>"

text \<open>
  Modelled from the spec: \<^verbatim>\<open>ac3_sink.c\<close> uses the macro \<^verbatim>\<open>AC3_SINK_BUFFER_TARGET_SAMPLES\<close>,
  which \<^verbatim>\<open>config.h\<close> does not define (it defines \<^verbatim>\<open>AC3_BUFFER_TARGET_SAMPLES\<close> as 384);
  the spec gives the target fill of the AC-3 sink as 384.
\<close>

definition ac3_sink_consts :: "nat \<Rightarrow> sink_consts" where
  "ac3_sink_consts H =
     \<lparr>SAMPLE_BUFFER_SIZE = 32768, BUFFER_TARGET_SAMPLES = 384, BUFFER_HIST_SIZE = H,
      LOOP_GAIN = 0.0000013334, OUTPUT_CHUNK_SIZE = 96\<rparr>"

text \<open>
  The fields of \<^verbatim>\<open>struct pcm_sink\<close> and \<^verbatim>\<open>struct ac3_sink\<close> that the ring buffer and the
  control loop use (\<open>src_ratio\<close> is \<^verbatim>\<open>src_data.src_ratio\<close>). \<^verbatim>\<open>buffer\<close> is a store from
  indices to samples; \<^verbatim>\<open>history\<close> is the array of \<open>BUFFER_HIST_SIZE\<close> offsets. The
  declaration of \<^verbatim>\<open>struct pcm_sink\<close> in \<^verbatim>\<open>pcm_sink.h\<close> lacks the fields \<^verbatim>\<open>history\<close>,
  \<^verbatim>\<open>histidx\<close> and \<^verbatim>\<open>average\<close> that \<^verbatim>\<open>pcm_sink.c\<close> uses; they are as in
  \<^verbatim>\<open>struct ac3_sink\<close>. Both indices of the ring buffer stay below the buffer size
  (\<open>indices_in_buffer\<close>, proved for every run), so every access to \<^verbatim>\<open>buffer\<close> is inside
  the array.
\<close>

record sink =
  thread_run :: bool
  buffer :: "nat \<Rightarrow> real"
  read_idx :: "32 word"
  write_idx :: "32 word"
  src_ratio :: real
  history :: "32 word list"
  histidx :: "32 word"
  average :: "32 word"

definition buffer_space_avail :: "sink_consts \<Rightarrow> sink \<Rightarrow> 32 word" where
  "buffer_space_avail c inst =
     SAMPLE_BUFFER_SIZE_MASK c - ((write_idx inst - read_idx inst) AND SAMPLE_BUFFER_SIZE_MASK c)"

definition buffer_used :: "sink_consts \<Rightarrow> sink \<Rightarrow> 32 word" where
  "buffer_used c inst = (write_idx inst - read_idx inst) AND SAMPLE_BUFFER_SIZE_MASK c"

text \<open>Conversion of a \<^verbatim>\<open>double\<close> to \<^verbatim>\<open>int32_t\<close>: the fraction is discarded.\<close>

definition double_to_int32 :: "real \<Rightarrow> 32 word" where
  "double_to_int32 x = word_of_int (if 0 \<le> x then \<lfloor>x\<rfloor> else \<lceil>x\<rceil>)"

text \<open>
  \<^verbatim>\<open>calculate_rate_ratio\<close>: the returned ratio and the structure with the history
  updated. The loop \<^verbatim>\<open>for (i = 0; i < HIST_SIZE; i++) accum += inst->history[i]\<close> is the
  fold over the history array.
\<close>

definition calculate_rate_ratio :: "(real \<Rightarrow> real) \<Rightarrow> sink_consts \<Rightarrow> sink \<Rightarrow> real \<times> sink" where
  "calculate_rate_ratio rnd c inst =
     (let tmp = buffer_used c inst;
          mult = rnd (LOOP_GAIN c);
          offset0 = BUFFER_TARGET_SAMPLES c - tmp;
          offset = (if offset0 <s - BUFFER_TARGET_SAMPLES c then - BUFFER_TARGET_SAMPLES c
                    else if BUFFER_TARGET_SAMPLES c <s offset0 then BUFFER_TARGET_SAMPLES c
                    else offset0);
          inst1 = inst\<lparr>history := (history inst)[unat (histidx inst) := offset]\<rparr>;
          inst2 = inst1\<lparr>histidx := histidx inst1 + 1\<rparr>;
          inst3 = inst2\<lparr>histidx := histidx inst2 AND (word_of_nat (BUFFER_HIST_SIZE c) - 1)\<rparr>;
          accum0 = foldl (\<lambda>a h. rnd (a + real_of_int (sint h))) 0 (history inst3);
          accum = rnd (accum0 / real (BUFFER_HIST_SIZE c));
          inst4 = inst3\<lparr>average := double_to_int32 accum\<rparr>
      in (rnd (rnd (mult * accum) + 1), inst4))"

text \<open>
  The statement group
  \<^verbatim>\<open>inst->buffer[inst->write_idx] = v; inst->write_idx++; inst->write_idx &= MASK;\<close>.
\<close>

definition buffer_put :: "sink_consts \<Rightarrow> sink \<Rightarrow> real \<Rightarrow> sink" where
  "buffer_put c inst v =
     inst\<lparr>buffer := (buffer inst)(unat (write_idx inst) := v),
          write_idx := (write_idx inst + 1) AND SAMPLE_BUFFER_SIZE_MASK c\<rparr>"

text \<open>
  The structure after \<^verbatim>\<open>pcm_sink_open\<close> / \<^verbatim>\<open>ac3_sink_open\<close>: \<^verbatim>\<open>memset\<close> to zero, the write
  index at the target, ratio 1.0, the thread running.
\<close>

definition sink_open :: "sink_consts \<Rightarrow> sink" where
  "sink_open c =
     \<lparr>thread_run = True, buffer = (\<lambda>_. 0), read_idx = 0,
      write_idx = BUFFER_TARGET_SAMPLES c, src_ratio = 1,
      history = replicate (BUFFER_HIST_SIZE c) 0, histidx = 0, average = 0\<rparr>"

definition pcm_sink_open :: "nat \<Rightarrow> sink" where
  "pcm_sink_open H = sink_open (pcm_sink_consts H)"

definition ac3_sink_open :: "nat \<Rightarrow> sink" where
  "ac3_sink_open H = sink_open (ac3_sink_consts H)"

text \<open>
  One iteration of \<^verbatim>\<open>output_thread\<close>, under the lock: it waits while fewer than
  \<open>OUTPUT_CHUNK_SIZE\<close> samples are buffered and the thread is to run, exits when the
  thread is not to run, and otherwise copies one chunk out, advancing \<^verbatim>\<open>read_idx\<close>.
\<close>

datatype thread_step = Waiting | Exited | Written "real list" sink

function output_copy :: "sink_consts \<Rightarrow> nat \<Rightarrow> real list \<Rightarrow> sink \<Rightarrow> real list \<times> sink" where
  "output_copy c i tmp inst =
     (if i < unat (OUTPUT_CHUNK_SIZE c)
      then output_copy c (i + 1) (tmp @ [buffer inst (unat (read_idx inst))])
             (inst\<lparr>read_idx := (read_idx inst + 1) AND SAMPLE_BUFFER_SIZE_MASK c\<rparr>)
      else (tmp, inst))"
  by pat_completeness auto
termination
  by (relation "measure (\<lambda>(c, i, tmp, inst). unat (OUTPUT_CHUNK_SIZE c) - i)") auto

declare output_copy.simps [simp del]

definition output_thread :: "sink_consts \<Rightarrow> sink \<Rightarrow> thread_step" where
  "output_thread c inst =
     (if buffer_used c inst < OUTPUT_CHUNK_SIZE c \<and> thread_run inst then Waiting
      else if \<not> thread_run inst then Exited
      else (case output_copy c 0 [] inst of (tmp, inst') \<Rightarrow> Written tmp inst'))"

text \<open>
  The part of \<^verbatim>\<open>pcm_sink_process\<close> that runs under the lock. The sample-rate converter is
  an external library: \<open>output_frames_gen\<close> and \<open>tmp_output_buf\<close> are what
  \<^verbatim>\<open>src_process\<close> left in \<^verbatim>\<open>src_data.output_frames_gen\<close> (at most \<^verbatim>\<open>output_frames\<close> = 256)
  and in \<^verbatim>\<open>inst->tmp_output_buf\<close>. The test \<^verbatim>\<open>nr_samples & 0x1\<close> at the head of the function is
  on the constant \<^verbatim>\<open>INPUT_CHUNK_SIZE / 2u\<close> = 256 and never exits.
\<close>

function pcm_queue :: "sink_consts \<Rightarrow> nat \<Rightarrow> nat \<Rightarrow> (nat \<Rightarrow> real) \<Rightarrow> sink \<Rightarrow> sink" where
  "pcm_queue c i will_queue tmp_output_buf inst =
     (if i < will_queue
      then pcm_queue c (i + 1) will_queue tmp_output_buf (buffer_put c inst (tmp_output_buf i))
      else inst)"
  by pat_completeness auto
termination
  by (relation "measure (\<lambda>(c, i, will_queue, tmp_output_buf, inst). will_queue - i)") auto

declare pcm_queue.simps [simp del]

definition pcm_sink_process :: "(real \<Rightarrow> real) \<Rightarrow> nat \<Rightarrow> sink \<Rightarrow> nat \<Rightarrow> (nat \<Rightarrow> real) \<Rightarrow> sink" where
  "pcm_sink_process rnd H inst output_frames_gen tmp_output_buf =
     (let c = pcm_sink_consts H;
          (ratio, inst1) = calculate_rate_ratio rnd c inst;
          inst2 = inst1\<lparr>src_ratio := ratio\<rparr>;
          can_queue = buffer_space_avail c inst2;
          will_queue = (if unat can_queue < output_frames_gen * 2 then unat can_queue
                        else output_frames_gen * 2)
      in pcm_queue c 0 will_queue tmp_output_buf inst2)"

text \<open>
  The part of \<^verbatim>\<open>ac3_sink_process\<close> that runs under the lock, after decoding and
  resampling: \<open>tmp_output_buf ch i\<close> is \<^verbatim>\<open>inst->tmp_output_buf[ch][i]\<close>, with the channels
  0 to 5 being front left, front right, centre, LFE, rear left and rear right.
\<close>

function ac3_queue :: "sink_consts \<Rightarrow> nat \<Rightarrow> nat \<Rightarrow> (nat \<Rightarrow> nat \<Rightarrow> real) \<Rightarrow> sink \<Rightarrow> sink" where
  "ac3_queue c i output_frames_gen tmp_output_buf inst =
     (if i < output_frames_gen
      then (let inst1 = buffer_put c inst (tmp_output_buf 0 i);
                inst2 = buffer_put c inst1 (tmp_output_buf 1 i);
                inst3 = buffer_put c inst2 (tmp_output_buf 2 i);
                inst4 = buffer_put c inst3 (tmp_output_buf 3 i);
                inst5 = buffer_put c inst4 (tmp_output_buf 4 i);
                inst6 = buffer_put c inst5 (tmp_output_buf 5 i)
            in ac3_queue c (i + 1) output_frames_gen tmp_output_buf inst6)
      else inst)"
  by pat_completeness auto
termination
  by (relation "measure (\<lambda>(c, i, output_frames_gen, tmp_output_buf, inst). output_frames_gen - i)") auto

declare ac3_queue.simps [simp del]

definition ac3_sink_process :: "(real \<Rightarrow> real) \<Rightarrow> nat \<Rightarrow> sink \<Rightarrow> nat \<Rightarrow> (nat \<Rightarrow> nat \<Rightarrow> real) \<Rightarrow> sink" where
  "ac3_sink_process rnd H inst output_frames_gen tmp_output_buf =
     (let c = ac3_sink_consts H;
          (ratio, inst1) = calculate_rate_ratio rnd c inst;
          inst2 = inst1\<lparr>src_ratio := ratio\<rparr>;
          can_queue = buffer_space_avail c inst2
      in if unat can_queue < output_frames_gen * 6 then inst2
         else ac3_queue c 0 output_frames_gen tmp_output_buf inst2)"

text \<open>
  Producer and consumer each run under the sink's mutex, so an execution of a sink is a
  sequence of whole producer steps and whole consumer iterations. A consumer iteration
  that waits or exits leaves the structure as it is.
\<close>

datatype pcm_event = Pcm_produce nat "nat \<Rightarrow> real" | Pcm_consume

datatype ac3_event = Ac3_produce nat "nat \<Rightarrow> nat \<Rightarrow> real" | Ac3_consume

definition consume :: "sink_consts \<Rightarrow> sink \<Rightarrow> sink" where
  "consume c inst = (case output_thread c inst of Written tmp inst' \<Rightarrow> inst' | _ \<Rightarrow> inst)"

fun pcm_sink_step :: "(real \<Rightarrow> real) \<Rightarrow> nat \<Rightarrow> sink \<Rightarrow> pcm_event \<Rightarrow> sink" where
  "pcm_sink_step rnd H inst (Pcm_produce gen out) = pcm_sink_process rnd H inst gen out"
| "pcm_sink_step rnd H inst Pcm_consume = consume (pcm_sink_consts H) inst"

fun ac3_sink_step :: "(real \<Rightarrow> real) \<Rightarrow> nat \<Rightarrow> sink \<Rightarrow> ac3_event \<Rightarrow> sink" where
  "ac3_sink_step rnd H inst (Ac3_produce gen out) = ac3_sink_process rnd H inst gen out"
| "ac3_sink_step rnd H inst Ac3_consume = consume (ac3_sink_consts H) inst"

definition pcm_sink_run :: "(real \<Rightarrow> real) \<Rightarrow> nat \<Rightarrow> pcm_event list \<Rightarrow> sink" where
  "pcm_sink_run rnd H evs = foldl (pcm_sink_step rnd H) (pcm_sink_open H) evs"

definition ac3_sink_run :: "(real \<Rightarrow> real) \<Rightarrow> nat \<Rightarrow> ac3_event list \<Rightarrow> sink" where
  "ac3_sink_run rnd H evs = foldl (ac3_sink_step rnd H) (ac3_sink_open H) evs"

section \<open>Reference inputs and reference behaviour\<close>

subsection \<open>A synthesized AC-3 burst\<close>

text \<open>
  The payload bytes of a burst packed two per 16-bit word, high byte first; an odd last
  byte is followed by the pad byte \<open>pad\<close>.
\<close>

definition word_of_bytes :: "8 word \<Rightarrow> 8 word \<Rightarrow> 16 word" where
  "word_of_bytes hi lo = push_bit 8 (ucast hi) OR ucast lo"

fun pack_payload :: "8 word list \<Rightarrow> 8 word \<Rightarrow> 16 word list" where
  "pack_payload [] pad = []"
| "pack_payload [a] pad = [word_of_bytes a pad]"
| "pack_payload (a # b # rest) pad = word_of_bytes a b # pack_payload rest pad"

text \<open>
  The 16-bit words of a burst as the standard writes them: four zero words, the two sync
  words, the data-type word \<open>dt\<close>, the length in bits, the payload. The words travel
  big-endian inside the S16LE carrier, so the samples handed to \<^verbatim>\<open>iec_61937_fsm_run\<close> are
  these words with their bytes swapped.
\<close>

definition ac3_burst_words :: "16 word \<Rightarrow> 8 word list \<Rightarrow> 8 word \<Rightarrow> 16 word list" where
  "ac3_burst_words dt bytes pad =
     [0, 0, 0, 0, 0xF872, 0x4E1F, dt, word_of_nat (8 * length bytes)] @ pack_payload bytes pad"

definition ac3_burst :: "16 word \<times> 8 word list \<times> 8 word \<Rightarrow> 16 word list" where
  "ac3_burst b = (case b of (dt, bytes, pad) \<Rightarrow> map bswap16 (ac3_burst_words dt bytes pad))"

text \<open>
  A burst is a valid AC-3 burst when the low seven bits of its data-type word are 0x01
  and its payload is a frame of at least one byte whose length in bits fits the 16-bit
  length word.
\<close>

definition valid_ac3_burst :: "16 word \<times> 8 word list \<times> 8 word \<Rightarrow> bool" where
  "valid_ac3_burst b =
     (case b of (dt, bytes, pad) \<Rightarrow> dt AND 0x7F = 0x01 \<and> bytes \<noteq> [] \<and> 8 * length bytes < 2 ^ 16)"

text \<open>The callback call expected for a burst.\<close>

definition burst_packet :: "16 word \<times> 8 word list \<times> 8 word \<Rightarrow> packet_cb_call" where
  "burst_packet b = (case b of (dt, bytes, pad) \<Rightarrow> Packet_cb 1 (word_of_nat (length bytes)) bytes)"

subsection \<open>The arbiter as the specification describes it\<close>

text \<open>The samples of a chunk, and the results of the state machine's steps on a sample sequence.\<close>

fun chunk_samples :: "8 word list \<Rightarrow> 16 word list" where
  "chunk_samples (lo # hi # rest) = (ucast lo OR push_bit 8 (ucast hi)) # chunk_samples rest"
| "chunk_samples _ = []"

fun fsm_returns :: "iec_61937_fsm \<Rightarrow> 16 word list \<Rightarrow> bool list" where
  "fsm_returns inst [] = []"
| "fsm_returns inst (x # xs) =
     (case iec_61937_fsm_run inst x of
        Inl e \<Rightarrow> []
      | Inr (ret, cb, inst') \<Rightarrow> ret # fsm_returns inst' xs)"

datatype sink_action =
    Open_ac3_sink
  | Close_ac3_sink
  | Open_pcm_sink
  | Close_pcm_sink
  | Forward_to_pcm_sink "8 word list"

text \<open>
  The per-chunk transition in the specification's words, on the mode and the count of
  chunks without a burst: the actions on the sinks, in order, and the new mode and count.
\<close>

definition spec_arbiter_step ::
    "iec_60958_state \<times> nat \<Rightarrow> bool \<Rightarrow> 8 word list \<Rightarrow> sink_action list \<times> (iec_60958_state \<times> nat)" where
  "spec_arbiter_step mc locked chunk =
     (case mc of (m, n) \<Rightarrow>
        (case m of
           IEC_60958_STATE_UNKNOWN \<Rightarrow>
             (if locked then ([Open_ac3_sink], (IEC_60958_STATE_61937, 0))
              else if n + 1 = 64 then ([Open_pcm_sink], (IEC_60958_STATE_PCM, n + 1))
              else ([], (IEC_60958_STATE_UNKNOWN, n + 1)))
         | IEC_60958_STATE_PCM \<Rightarrow>
             (if locked then ([Close_pcm_sink, Open_ac3_sink], (IEC_60958_STATE_61937, 0))
              else ([Forward_to_pcm_sink chunk], (IEC_60958_STATE_PCM, n)))
         | IEC_60958_STATE_61937 \<Rightarrow>
             (if locked then ([], (IEC_60958_STATE_61937, 0))
              else if n + 1 = 64 then ([Close_ac3_sink, Open_pcm_sink], (IEC_60958_STATE_PCM, n + 1))
              else ([], (IEC_60958_STATE_61937, n + 1)))))"

text \<open>
  The action a sink call stands for. The calls of \<^verbatim>\<open>ac3_sink_process\<close> come from the packet
  handler, not from the arbiter's transitions.
\<close>

fun sink_call_action :: "sink_call \<Rightarrow> sink_action option" where
  "sink_call_action (Ac3_sink_open l) = Some Open_ac3_sink"
| "sink_call_action Ac3_sink_close = Some Close_ac3_sink"
| "sink_call_action (Ac3_sink_process bytes len) = None"
| "sink_call_action (Pcm_sink_open l) = Some Open_pcm_sink"
| "sink_call_action Pcm_sink_close = Some Close_pcm_sink"
| "sink_call_action (Pcm_sink_process chunk) = Some (Forward_to_pcm_sink chunk)"

subsection \<open>Which sinks are open along a sequence of sink calls\<close>

text \<open>
  Replays a sequence of sink calls on the pair (PCM sink open, AC-3 sink open). The
  result is \<open>None\<close> as soon as a sink is opened while a sink is open, or a sink that is not
  open is closed or given data.
\<close>

fun sinks_replay :: "bool \<times> bool \<Rightarrow> sink_call list \<Rightarrow> (bool \<times> bool) option" where
  "sinks_replay s [] = Some s"
| "sinks_replay (p, a) (Pcm_sink_open l # cs) =
     (if p \<or> a then None else sinks_replay (True, a) cs)"
| "sinks_replay (p, a) (Ac3_sink_open l # cs) =
     (if p \<or> a then None else sinks_replay (p, True) cs)"
| "sinks_replay (p, a) (Pcm_sink_close # cs) =
     (if p then sinks_replay (False, a) cs else None)"
| "sinks_replay (p, a) (Ac3_sink_close # cs) =
     (if a then sinks_replay (p, False) cs else None)"
| "sinks_replay (p, a) (Pcm_sink_process chunk # cs) =
     (if p then sinks_replay (p, a) cs else None)"
| "sinks_replay (p, a) (Ac3_sink_process bytes len # cs) =
     (if a then sinks_replay (p, a) cs else None)"

subsection \<open>The contents of a ring buffer\<close>

text \<open>
  The samples queued in a ring buffer, oldest first: the \<open>buffer_used\<close> samples that the
  output thread would read starting at \<^verbatim>\<open>read_idx\<close>.
\<close>

definition buffer_contents :: "sink_consts \<Rightarrow> sink \<Rightarrow> real list" where
  "buffer_contents c inst =
     map (\<lambda>k. buffer inst (unat ((read_idx inst + word_of_nat k) AND SAMPLE_BUFFER_SIZE_MASK c)))
       [0..<unat (buffer_used c inst)]"

text \<open>The six samples of frame \<open>i\<close>, in the order of the channels 0 to 5.\<close>

definition ac3_frame :: "(nat \<Rightarrow> nat \<Rightarrow> real) \<Rightarrow> nat \<Rightarrow> real list" where
  "ac3_frame tmp_output_buf i =
     [tmp_output_buf 0 i, tmp_output_buf 1 i, tmp_output_buf 2 i,
      tmp_output_buf 3 i, tmp_output_buf 4 i, tmp_output_buf 5 i]"

text \<open>Both indices of a ring buffer are inside the buffer.\<close>

definition indices_in_buffer :: "sink_consts \<Rightarrow> sink \<Rightarrow> bool" where
  "indices_in_buffer c inst =
     (read_idx inst < SAMPLE_BUFFER_SIZE c \<and> write_idx inst < SAMPLE_BUFFER_SIZE c)"

subsection \<open>Rounding\<close>

text \<open>
  What the theorems on the control loop ask of the rounding of \<^verbatim>\<open>double\<close> arithmetic: it
  is monotone and leaves the integers of magnitude up to \<open>2 ^ 53\<close> as they are. Exact
  arithmetic (the identity) and IEEE rounding to nearest both qualify.
\<close>

definition rounding :: "(real \<Rightarrow> real) \<Rightarrow> bool" where
  "rounding rnd =
     ((\<forall>x y. x \<le> y \<longrightarrow> rnd x \<le> rnd y) \<and>
      (\<forall>k::int. \<bar>k\<bar> \<le> 2 ^ 53 \<longrightarrow> rnd (real_of_int k) = real_of_int k))"

text \<open>
  The bounds on the ratio, computed as the code computes the ratio: \<open>1 - G * T\<close> and
  \<open>1 + G * T\<close> for the gain \<open>G\<close> and the target fill \<open>T\<close> of the sink, with every
  operation rounded. With exact arithmetic these are \<open>1 - G * T\<close> and \<open>1 + G * T\<close>.
\<close>

definition ratio_in_bounds :: "(real \<Rightarrow> real) \<Rightarrow> sink_consts \<Rightarrow> real \<Rightarrow> bool" where
  "ratio_in_bounds rnd c ratio =
     (let G = rnd (LOOP_GAIN c); T = real_of_int (sint (BUFFER_TARGET_SAMPLES c))
      in rnd (rnd (G * (- T)) + 1) \<le> ratio \<and> ratio \<le> rnd (rnd (G * T) + 1))"

subsection \<open>Invariants\<close>

text \<open>
  The history has its \<open>BUFFER_HIST_SIZE\<close> entries, \<^verbatim>\<open>histidx\<close> is an index into it (so that
  the write \<^verbatim>\<open>history[histidx] = offset\<close> is inside the array), and every entry is an offset
  clamped to the target fill.
\<close>

definition history_clamped :: "sink_consts \<Rightarrow> sink \<Rightarrow> bool" where
  "history_clamped c inst =
     (length (history inst) = BUFFER_HIST_SIZE c \<and>
      unat (histidx inst) < BUFFER_HIST_SIZE c \<and>
      list_all (\<lambda>h. - sint (BUFFER_TARGET_SAMPLES c) \<le> sint h \<and>
                     sint h \<le> sint (BUFFER_TARGET_SAMPLES c)) (history inst))"

text \<open>In state PAYLOAD the parsed length is at most 8191.\<close>

definition payload_len_ok :: "iec_61937_fsm \<Rightarrow> bool" where
  "payload_len_ok inst =
     (state inst = IEC_61937_STATE_PAYLOAD \<longrightarrow> unat (payload_len inst) \<le> 8191)"

text \<open>
  The arbiter's invariant: the PCM sink runs exactly in state PCM, the AC-3 sink exactly in
  state 61937, and outside state PCM fewer than 64 chunks have been counted.
\<close>

definition arbiter_inv :: "iec_60958 \<Rightarrow> bool" where
  "arbiter_inv inst =
     (pcm_sink_thread_run inst = (state_60958 inst = IEC_60958_STATE_PCM) \<and>
      ac3_sink_thread_run inst = (state_60958 inst = IEC_60958_STATE_61937) \<and>
      (state_60958 inst = IEC_60958_STATE_PCM \<or> unat (non_61937_chunks inst) < 64))"

section \<open>Properties of the IEC 61937 state machine\<close>

lemma bswap16_bswap16: "bswap16 (bswap16 x) = x"
  unfolding bswap16_def
  by (rule bit_word_eqI) (auto simp add: bit_simps)

lemmas fsm_consts =
  IEC_61937_SYNC_WORD_0_def IEC_61937_SYNC_WORD_1_def IEC_61937_DATA_TYPE_MASK_def
  IEC_61937_DATA_TYPE_AC3_def IEC_61937_DATA_TYPE_EXTENDED_def

lemmas fsm_eval =
  iec_61937_fsm_run_def fsm_switch_def fsm_consts Let_def payload_put_def
  IEC_61937_MAX_BURST_PAYLOAD_def bswap16_bswap16 iec_61937_fsm_init_def word_le_nat_alt

text \<open>
  C4. One step from each of the eight header states, for every input sample \<open>x\<close> with
  byte-swapped value \<open>s\<close>: the four zero-counting states advance on \<open>s = 0\<close> and go to
  FIRST_0 otherwise; SYNC_0 stays on \<open>s = 0\<close>, goes to SYNC_1 on 0xF872 and to FIRST_0
  otherwise; SYNC_1 goes to DATA_TYPE on 0x4E1F and to FIRST_0 otherwise; DATA_TYPE sets
  \<open>data_type = s AND 0x7F\<close> and goes to FIRST_0 when that is 0x1F, to LENGTH otherwise;
  LENGTH with \<open>data_type = 0x01\<close> sets \<open>payload_len = s div 8\<close> and \<open>bytes_received = 0\<close> and
  goes to PAYLOAD, and goes to FIRST_0 for any other data type. Nothing else in the
  structure changes and no step calls the callback.
\<close>

theorem fsm_run_transitions:
  "(let s = bswap16 x in
    iec_61937_fsm_run (inst\<lparr>state := IEC_61937_STATE_FIRST_0\<rparr>) x =
      Inr (False, None,
           inst\<lparr>state := if s = 0 then IEC_61937_STATE_SECOND_0 else IEC_61937_STATE_FIRST_0\<rparr>) \<and>
    iec_61937_fsm_run (inst\<lparr>state := IEC_61937_STATE_SECOND_0\<rparr>) x =
      Inr (False, None,
           inst\<lparr>state := if s = 0 then IEC_61937_STATE_THIRD_0 else IEC_61937_STATE_FIRST_0\<rparr>) \<and>
    iec_61937_fsm_run (inst\<lparr>state := IEC_61937_STATE_THIRD_0\<rparr>) x =
      Inr (False, None,
           inst\<lparr>state := if s = 0 then IEC_61937_STATE_FOURTH_0 else IEC_61937_STATE_FIRST_0\<rparr>) \<and>
    iec_61937_fsm_run (inst\<lparr>state := IEC_61937_STATE_FOURTH_0\<rparr>) x =
      Inr (False, None,
           inst\<lparr>state := if s = 0 then IEC_61937_STATE_SYNC_0 else IEC_61937_STATE_FIRST_0\<rparr>) \<and>
    iec_61937_fsm_run (inst\<lparr>state := IEC_61937_STATE_SYNC_0\<rparr>) x =
      Inr (False, None,
           inst\<lparr>state := if s = 0 then IEC_61937_STATE_SYNC_0
                         else if s = 0xF872 then IEC_61937_STATE_SYNC_1
                         else IEC_61937_STATE_FIRST_0\<rparr>) \<and>
    iec_61937_fsm_run (inst\<lparr>state := IEC_61937_STATE_SYNC_1\<rparr>) x =
      Inr (s = 0x4E1F, None,
           inst\<lparr>state := if s = 0x4E1F then IEC_61937_STATE_DATA_TYPE
                         else IEC_61937_STATE_FIRST_0\<rparr>) \<and>
    iec_61937_fsm_run (inst\<lparr>state := IEC_61937_STATE_DATA_TYPE\<rparr>) x =
      Inr (ucast (s AND 0x7F) \<noteq> (0x1F :: 8 word), None,
           inst\<lparr>data_type := ucast (s AND 0x7F),
                state := if ucast (s AND 0x7F) = (0x1F :: 8 word) then IEC_61937_STATE_FIRST_0
                         else IEC_61937_STATE_LENGTH\<rparr>) \<and>
    iec_61937_fsm_run (inst\<lparr>state := IEC_61937_STATE_LENGTH\<rparr>) x =
      (if data_type inst = 0x01
       then Inr (True, None,
                 inst\<lparr>payload_len := ucast s div 8, bytes_received := 0,
                      state := IEC_61937_STATE_PAYLOAD\<rparr>)
       else Inr (False, None, inst\<lparr>state := IEC_61937_STATE_FIRST_0\<rparr>)))"
  by (simp add: iec_61937_fsm_run_def fsm_switch_def fsm_consts Let_def)

text \<open>
  C5. For every structure and every sample, a step that returns gives \<open>True\<close> exactly when
  the state after the step is DATA_TYPE, LENGTH or PAYLOAD. The step returns from every
  state except PAYLOAD with \<open>bytes_received\<close> at 65535 or more, where it may write past
  the payload array.
\<close>

theorem fsm_run_locked_iff:
  "(case iec_61937_fsm_run inst x of
      Inr (ret, cb, inst') \<Rightarrow>
        ret = (state inst' \<in> {IEC_61937_STATE_DATA_TYPE, IEC_61937_STATE_LENGTH,
                                IEC_61937_STATE_PAYLOAD})
    | Inl e \<Rightarrow> state inst = IEC_61937_STATE_PAYLOAD \<and> 65535 \<le> unat (bytes_received inst))"
proof (cases "state inst = IEC_61937_STATE_PAYLOAD")
  case False
  then show ?thesis
    by (cases "state inst")
       (simp_all add: iec_61937_fsm_run_def fsm_switch_def Let_def split: sum.splits)
next
  case True
  then show ?thesis
    by (auto simp: iec_61937_fsm_run_def fsm_switch_def Let_def payload_put_def
          IEC_61937_MAX_BURST_PAYLOAD_def unat_word_ariths split: sum.splits if_splits)
qed

theorem fsm_run_locked_iff_witness:
  "iec_61937_fsm_run (iec_61937_fsm_init\<lparr>state := IEC_61937_STATE_SYNC_1\<rparr>) (bswap16 0x4E1F) =
     Inr (True, None, iec_61937_fsm_init\<lparr>state := IEC_61937_STATE_DATA_TYPE\<rparr>) \<and>
   (case iec_61937_fsm_run (iec_61937_fsm_init\<lparr>state := IEC_61937_STATE_SYNC_1\<rparr>) (bswap16 0x4E1F) of
      Inr (ret, cb, inst') \<Rightarrow>
        ret = (state inst' \<in> {IEC_61937_STATE_DATA_TYPE, IEC_61937_STATE_LENGTH,
                                IEC_61937_STATE_PAYLOAD})
    | Inl e \<Rightarrow> False)"
  using fsm_run_locked_iff [of "iec_61937_fsm_init\<lparr>state := IEC_61937_STATE_SYNC_1\<rparr>" "bswap16 0x4E1F"]
  by (simp add: fsm_eval)

subsection \<open>The parsed length\<close>

lemma length_field_div8: "unat ((ucast (s :: 16 word) :: 64 word) div 8) \<le> 8191"
proof -
  have s: "unat s < 65536" using unsigned_less [of s] by simp
  then have "unat s < 2 ^ 64" by simp
  then have "unat (ucast s :: 64 word) = unat s"
    by (simp add: unsigned_ucast_eq take_bit_nat_eq_self)
  with s show ?thesis by (simp add: unat_div)
qed

lemma fsm_run_payload_len_ok:
  assumes "payload_len_ok inst" and "iec_61937_fsm_run inst x = Inr (ret, cb, inst')"
  shows "payload_len_ok inst' \<and>
         (\<forall>c. cb = Some c \<longrightarrow> unat (cb_len c) \<le> 8191 \<and> length (cb_payload c) = unat (cb_len c))"
proof (cases "state inst = IEC_61937_STATE_PAYLOAD")
  case False
  with assms show ?thesis
    using length_field_div8 [of "bswap16 x"]
    by (cases "state inst")
       (auto simp add: payload_len_ok_def iec_61937_fsm_run_def fsm_switch_def Let_def
             split: sum.splits if_splits)
next
  case True
  with assms show ?thesis
    by (auto simp: payload_len_ok_def iec_61937_fsm_run_def fsm_switch_def Let_def payload_put_def
             split: sum.splits if_splits)
qed

lemma fsm_feed_payload_len_ok:
  "payload_len_ok inst \<Longrightarrow>
   (\<forall>c \<in> set (fst (fsm_feed inst xs)).
      unat (cb_len c) \<le> 8191 \<and> length (cb_payload c) = unat (cb_len c)) \<and>
   (case snd (fsm_feed inst xs) of Inr inst' \<Rightarrow> payload_len_ok inst' | Inl e \<Rightarrow> True)"
proof (induction xs arbitrary: inst)
  case Nil
  then show ?case by simp
next
  case (Cons x xs)
  show ?case
  proof (cases "iec_61937_fsm_run inst x")
    case (Inl e)
    then show ?thesis by simp
  next
    case (Inr t)
    then obtain ret cb inst' where t: "iec_61937_fsm_run inst x = Inr (ret, cb, inst')"
      by (cases t) auto
    from fsm_run_payload_len_ok [OF Cons.prems t]
    have ok: "payload_len_ok inst'"
      and cb: "\<forall>c. cb = Some c \<longrightarrow>
                 unat (cb_len c) \<le> 8191 \<and> length (cb_payload c) = unat (cb_len c)"
      by auto
    from Cons.IH [OF ok] cb t show ?thesis
      by (auto split: prod.splits option.splits)
  qed
qed

text \<open>
  C10. For every input stream fed to the initialised state machine: whenever the state is
  PAYLOAD, \<open>payload_len\<close> is at most 8191 (it is a 16-bit sample divided by 8), and every
  call of the packet callback delivers a length of at most 8191 bytes, with that many
  payload bytes.
\<close>

theorem payload_len_at_most_8191:
  "(\<forall>c \<in> set (fst (fsm_feed iec_61937_fsm_init xs)).
      unat (cb_len c) \<le> 8191 \<and> length (cb_payload c) = unat (cb_len c)) \<and>
   (case snd (fsm_feed iec_61937_fsm_init xs) of
      Inr inst \<Rightarrow> state inst = IEC_61937_STATE_PAYLOAD \<longrightarrow> unat (payload_len inst) \<le> 8191
    | Inl e \<Rightarrow> True)"
  using fsm_feed_payload_len_ok [of iec_61937_fsm_init xs]
  by (simp add: payload_len_ok_def iec_61937_fsm_init_def split: sum.splits)

theorem payload_len_at_most_8191_witness:
  "fst (fsm_feed iec_61937_fsm_init
          (map bswap16 [0, 0, 0, 0, 0xF872, 0x4E1F, 0x0001, 0x0008, 0xABCD])) =
     [Packet_cb 1 1 [0xAB]] \<and>
   unat (cb_len (Packet_cb 1 1 [0xAB])) \<le> 8191 \<and>
   length (cb_payload (Packet_cb 1 1 [0xAB])) = unat (cb_len (Packet_cb 1 1 [0xAB]))"
proof -
  let ?xs = "map bswap16 [0, 0, 0, 0, 0xF872, 0x4E1F, 0x0001, 0x0008, 0xABCD]"
  have e: "fst (fsm_feed iec_61937_fsm_init ?xs) = [Packet_cb 1 1 [0xAB]]"
    by (simp add: fsm_eval)
  have "\<forall>c \<in> set (fst (fsm_feed iec_61937_fsm_init ?xs)).
      unat (cb_len c) \<le> 8191 \<and> length (cb_payload c) = unat (cb_len c)"
    using payload_len_at_most_8191 [of ?xs] by (rule conjunct1)
  then have "unat (cb_len (Packet_cb 1 1 [0xAB])) \<le> 8191 \<and>
      length (cb_payload (Packet_cb 1 1 [0xAB])) = unat (cb_len (Packet_cb 1 1 [0xAB]))"
    unfolding e by (rule bspec) simp
  with e show ?thesis by (rule conjI)
qed

text \<open>
  C1. The invariant \<open>bytes_received \<le> payload_len\<close> fails on a burst header whose length
  field is below 8: after the header \<open>payload_len = 0\<close>, and the first payload sample is
  stored all the same, so that \<open>bytes_received = 1\<close> while the machine stays in PAYLOAD.
\<close>

theorem zero_length_burst_breaks_invariant:
  "(case snd (fsm_feed iec_61937_fsm_init
               (map bswap16 [0, 0, 0, 0, 0xF872, 0x4E1F, 0x0001, 0x0000, 0xABCD])) of
      Inr inst \<Rightarrow> state inst = IEC_61937_STATE_PAYLOAD \<and> payload_len inst = 0 \<and>
                  bytes_received inst = 1 \<and> \<not> bytes_received inst \<le> payload_len inst
    | Inl e \<Rightarrow> False)"
  by (simp add: fsm_eval)

subsection \<open>Bursts\<close>

lemma fsm_feed_append:
  "fsm_feed inst (xs @ ys) =
     (case fsm_feed inst xs of
        (cbs, Inl e) \<Rightarrow> (cbs, Inl e)
      | (cbs, Inr inst') \<Rightarrow> (case fsm_feed inst' ys of (cbs', r) \<Rightarrow> (cbs @ cbs', r)))"
  by (induction xs arbitrary: inst) (auto split: sum.splits prod.splits option.splits)

lemma high_byte: "ucast (drop_bit 8 (word_of_bytes a b)) = a"
  unfolding word_of_bytes_def
  by (rule bit_word_eqI) (auto simp add: bit_simps dest: bit_imp_le_length)

lemma low_byte: "ucast (word_of_bytes a b) = b"
  unfolding word_of_bytes_def
  by (rule bit_word_eqI) (auto simp add: bit_simps dest: bit_imp_le_length)

lemma map_payload_upd:
  "map (f(k := a)) [0..<Suc k] = map f [0..<k] @ [a]"
  by simp

lemma payload_last_byte:
  assumes "state inst = IEC_61937_STATE_PAYLOAD"
      and "unat (payload_len inst) = Suc (unat (bytes_received inst))"
      and "unat (payload_len inst) \<le> 65536"
  shows "iec_61937_fsm_run inst (bswap16 (word_of_bytes a pad)) =
           Inr (False,
                Some (Packet_cb (data_type inst) (payload_len inst)
                        (map (payload inst) [0..<unat (bytes_received inst)] @ [a])),
                inst\<lparr>payload := (payload inst)(unat (bytes_received inst) := a),
                     bytes_received := payload_len inst,
                     state := IEC_61937_STATE_FIRST_0\<rparr>)"
proof -
  have le: "bytes_received inst \<le> payload_len inst"
    using assms by (simp add: word_le_nat_alt)
  have sub: "unat (payload_len inst - bytes_received inst) = 1"
    using assms le by (simp add: unat_sub)
  have n2: "\<not> 2 \<le> payload_len inst - bytes_received inst"
    using sub by (simp add: word_le_nat_alt)
  have eq: "bytes_received inst + 1 = payload_len inst"
    using assms by (simp add: word_unat_eq_iff unat_word_ariths)
  show ?thesis
    using assms n2 eq
    by (simp add: iec_61937_fsm_run_def fsm_switch_def Let_def payload_put_def bswap16_bswap16
          high_byte IEC_61937_MAX_BURST_PAYLOAD_def)
qed

lemma payload_whole_sample:
  assumes "state inst = IEC_61937_STATE_PAYLOAD"
      and "Suc (Suc (unat (bytes_received inst))) \<le> unat (payload_len inst)"
      and "unat (payload_len inst) \<le> 65536"
  shows "iec_61937_fsm_run inst (bswap16 (word_of_bytes a b)) =
           (if Suc (Suc (unat (bytes_received inst))) = unat (payload_len inst)
            then Inr (False,
                Some (Packet_cb (data_type inst) (payload_len inst)
                        (map (payload inst) [0..<unat (bytes_received inst)] @ [a, b])),
                inst\<lparr>payload := (payload inst)(unat (bytes_received inst) := a,
                                                  Suc (unat (bytes_received inst)) := b),
                     bytes_received := bytes_received inst + 2,
                     state := IEC_61937_STATE_FIRST_0\<rparr>)
            else Inr (True, None,
                inst\<lparr>payload := (payload inst)(unat (bytes_received inst) := a,
                                                  Suc (unat (bytes_received inst)) := b),
                     bytes_received := bytes_received inst + 2\<rparr>))"
proof -
  let ?k = "unat (bytes_received inst)"
  have le: "bytes_received inst \<le> payload_len inst"
    using assms by (simp add: word_le_nat_alt)
  have sub: "unat (payload_len inst - bytes_received inst) = unat (payload_len inst) - ?k"
    using le by (simp add: unat_sub)
  have n2: "2 \<le> payload_len inst - bytes_received inst"
    using sub assms by (simp add: word_le_nat_alt)
  have u1: "unat (bytes_received inst + 1) = Suc ?k"
    using assms by (simp add: unat_word_ariths)
  have u2: "unat (bytes_received inst + 2) = Suc (Suc ?k)"
    using assms by (simp add: unat_word_ariths)
  have eq: "(payload_len inst = bytes_received inst + 2) = (Suc (Suc ?k) = unat (payload_len inst))"
    using u2 by (auto simp add: word_unat_eq_iff)
  have p2: "bytes_received inst + 1 + 1 = bytes_received inst + 2" by simp
  have run: "iec_61937_fsm_run inst (bswap16 (word_of_bytes a b)) =
      (let inst2 = inst\<lparr>payload := (payload inst)(?k := a, Suc ?k := b),
                          bytes_received := bytes_received inst + 2\<rparr>
       in if payload_len inst = bytes_received inst + 2
          then Inr (False, Some (Packet_cb (data_type inst) (bytes_received inst + 2)
                      (map (payload inst2) [0..<unat (bytes_received inst + 2)])),
                    inst2\<lparr>state := IEC_61937_STATE_FIRST_0\<rparr>)
          else Inr (True, None, inst2))"
    using assms n2 u1
    by (simp add: iec_61937_fsm_run_def fsm_switch_def Let_def payload_put_def bswap16_bswap16
          high_byte low_byte IEC_61937_MAX_BURST_PAYLOAD_def p2)
  show ?thesis
  proof (cases "Suc (Suc ?k) = unat (payload_len inst)")
    case True
    then have e: "payload_len inst = bytes_received inst + 2" using eq by simp
    have m: "map ((payload inst)(?k := a, Suc ?k := b)) [0..<Suc (Suc ?k)] =
             map (payload inst) [0..<?k] @ [a, b]"
      by simp
    show ?thesis
      unfolding run using True m by (simp add: e [symmetric] u2 Let_def)
  next
    case False
    then have e: "payload_len inst \<noteq> bytes_received inst + 2" using eq by simp
    show ?thesis
      unfolding run using False e by (simp add: Let_def)
  qed
qed

lemma payload_phase:
  "bytes \<noteq> [] \<Longrightarrow> state inst = IEC_61937_STATE_PAYLOAD \<Longrightarrow>
   unat (payload_len inst) = unat (bytes_received inst) + length bytes \<Longrightarrow>
   unat (payload_len inst) \<le> 65536 \<Longrightarrow>
   \<exists>inst'. fsm_feed inst (map bswap16 (pack_payload bytes pad)) =
            ([Packet_cb (data_type inst) (payload_len inst)
                (map (payload inst) [0..<unat (bytes_received inst)] @ bytes)], Inr inst') \<and>
          state inst' = IEC_61937_STATE_FIRST_0"
proof (induction bytes pad arbitrary: inst rule: pack_payload.induct)
  case (1 pad)
  then show ?case by simp
next
  case (2 a pad)
  then show ?case
    using payload_last_byte [of inst a pad] by simp
next
  case (3 a b rest pad)
  let ?k = "unat (bytes_received inst)"
  let ?inst2 = "inst\<lparr>payload := (payload inst)(?k := a, Suc ?k := b),
                       bytes_received := bytes_received inst + 2\<rparr>"
  from "3.prems" have le: "Suc (Suc ?k) \<le> unat (payload_len inst)" by simp
  note step = payload_whole_sample [OF "3.prems"(2) le "3.prems"(4), of a b]
  show ?case
  proof (cases "rest = []")
    case True
    with "3.prems" have "Suc (Suc ?k) = unat (payload_len inst)" by simp
    with step True show ?thesis by simp
  next
    case False
    with "3.prems" have ne: "Suc (Suc ?k) \<noteq> unat (payload_len inst)" by auto
    have u2: "unat (bytes_received inst + 2) = Suc (Suc ?k)"
      using "3.prems" by (simp add: unat_word_ariths)
    have "\<exists>inst'. fsm_feed ?inst2 (map bswap16 (pack_payload rest pad)) =
            ([Packet_cb (data_type ?inst2) (payload_len ?inst2)
                (map (payload ?inst2) [0..<unat (bytes_received ?inst2)] @ rest)], Inr inst') \<and>
          state inst' = IEC_61937_STATE_FIRST_0"
      using "3.prems" u2 by (intro "3.IH" [OF False]) simp_all
    then obtain inst' where
      f: "fsm_feed ?inst2 (map bswap16 (pack_payload rest pad)) =
            ([Packet_cb (data_type ?inst2) (payload_len ?inst2)
                (map (payload ?inst2) [0..<unat (bytes_received ?inst2)] @ rest)], Inr inst')"
      and s: "state inst' = IEC_61937_STATE_FIRST_0" by blast
    have m: "map (payload ?inst2) [0..<unat (bytes_received ?inst2)] =
             map (payload inst) [0..<?k] @ [a, b]"
      by (simp add: u2)
    show ?thesis
      using step ne f s m by simp
  qed
qed

lemma length_word:
  assumes a: "8 * n < 2 ^ 16"
  shows "(ucast (word_of_nat (8 * n) :: 16 word) :: 64 word) div 8 = word_of_nat n"
proof -
  have "unat (word_of_nat (8 * n) :: 16 word) = (8 * n) mod 2 ^ LENGTH(16)"
    by (rule unat_of_nat)
  also have "\<dots> = 8 * n" using a by simp
  finally have 1: "unat (word_of_nat (8 * n) :: 16 word) = 8 * n" .
  have "unat (ucast (word_of_nat (8 * n) :: 16 word) :: 64 word) =
        take_bit LENGTH(64) (unat (word_of_nat (8 * n) :: 16 word))"
    by (rule unsigned_ucast_eq)
  also have "\<dots> = 8 * n"
    unfolding 1 using a by (simp add: take_bit_nat_eq_self)
  finally have 2: "unat (ucast (word_of_nat (8 * n) :: 16 word) :: 64 word) = 8 * n" .
  have "unat (word_of_nat n :: 64 word) = n mod 2 ^ LENGTH(64)"
    by (rule unat_of_nat)
  also have "\<dots> = n" using a by simp
  finally have 3: "unat (word_of_nat n :: 64 word) = n" .
  show ?thesis
    unfolding word_unat_eq_iff unat_div 2 3 by simp
qed

lemma header_phase:
  assumes "state inst = IEC_61937_STATE_FIRST_0" and "dt AND 0x7F = 0x01"
  shows "fsm_feed inst (map bswap16 [0, 0, 0, 0, 0xF872, 0x4E1F, dt, len]) =
           ([], Inr (inst\<lparr>data_type := 1, bytes_received := 0, payload_len := ucast len div 8,
                          state := IEC_61937_STATE_PAYLOAD\<rparr>))"
  using assms
  by (simp add: iec_61937_fsm_run_def fsm_switch_def fsm_consts Let_def bswap16_bswap16)

lemma single_burst:
  assumes v: "valid_ac3_burst b" and st: "state inst = IEC_61937_STATE_FIRST_0"
  shows "\<exists>inst'. fsm_feed inst (ac3_burst b) = ([burst_packet b], Inr inst') \<and>
                state inst' = IEC_61937_STATE_FIRST_0"
proof -
  obtain dt bytes pad where b: "b = (dt, bytes, pad)" by (cases b) auto
  from v b have dt: "dt AND 0x7F = 0x01" and ne: "bytes \<noteq> []" and len: "8 * length bytes < 2 ^ 16"
    by (simp_all add: valid_ac3_burst_def)
  let ?n = "length bytes"
  let ?h = "inst\<lparr>data_type := 1, bytes_received := 0, payload_len := word_of_nat ?n,
                   state := IEC_61937_STATE_PAYLOAD\<rparr>"
  have hd: "fsm_feed inst (map bswap16 [0, 0, 0, 0, 0xF872, 0x4E1F, dt, word_of_nat (8 * ?n)]) =
              ([], Inr ?h)"
    unfolding header_phase [OF st dt] length_word [OF len] ..
  have "unat (word_of_nat ?n :: 64 word) = ?n mod 2 ^ LENGTH(64)"
    by (rule unat_of_nat)
  also have "\<dots> = ?n" using len by simp
  finally have un: "unat (word_of_nat ?n :: 64 word) = ?n" .
  have "\<exists>inst'. fsm_feed ?h (map bswap16 (pack_payload bytes pad)) =
            ([Packet_cb (data_type ?h) (payload_len ?h)
                (map (payload ?h) [0..<unat (bytes_received ?h)] @ bytes)], Inr inst') \<and>
          state inst' = IEC_61937_STATE_FIRST_0"
    using len un by (intro payload_phase [OF ne]) simp_all
  then obtain inst' where
    pl: "fsm_feed ?h (map bswap16 (pack_payload bytes pad)) =
           ([Packet_cb 1 (word_of_nat ?n) bytes], Inr inst')"
    and s: "state inst' = IEC_61937_STATE_FIRST_0"
    by auto
  have "ac3_burst b =
          map bswap16 [0, 0, 0, 0, 0xF872, 0x4E1F, dt, word_of_nat (8 * ?n)] @
          map bswap16 (pack_payload bytes pad)"
    by (simp only: b ac3_burst_def ac3_burst_words_def prod.case map_append)
  then have "fsm_feed inst (ac3_burst b) = ([Packet_cb 1 (word_of_nat ?n) bytes], Inr inst')"
    by (simp only: fsm_feed_append hd pl prod.case sum.case append_Nil)
  with s b show ?thesis by (auto simp add: burst_packet_def)
qed

text \<open>
  C3. Fed from state FIRST_0 with a synthesized valid AC-3 burst (four zero words, the
  sync words 0xF872 and 0x4E1F, a data-type word whose low seven bits are 0x01, the
  payload length in bits, the payload packed high byte first), the state machine calls
  the callback exactly once, with data type 1 and the payload bytes, and is in FIRST_0
  afterwards; fed with N such bursts one after the other it makes exactly the N calls, in
  stream order.
\<close>

theorem valid_bursts_yield_callbacks:
  assumes "\<forall>b \<in> set bs. valid_ac3_burst b" and "state inst = IEC_61937_STATE_FIRST_0"
  shows "\<exists>inst'. fsm_feed inst (concat (map ac3_burst bs)) = (map burst_packet bs, Inr inst') \<and>
                state inst' = IEC_61937_STATE_FIRST_0"
  using assms
proof (induction bs arbitrary: inst)
  case Nil
  then show ?case by simp
next
  case (Cons b bs)
  from Cons.prems have vb: "valid_ac3_burst b" by simp
  from single_burst [OF vb Cons.prems(2)] obtain inst1 where
    f1: "fsm_feed inst (ac3_burst b) = ([burst_packet b], Inr inst1)"
    and s1: "state inst1 = IEC_61937_STATE_FIRST_0" by blast
  from Cons.prems have "\<forall>b \<in> set bs. valid_ac3_burst b" by simp
  from Cons.IH [OF this s1] obtain inst' where
    f2: "fsm_feed inst1 (concat (map ac3_burst bs)) = (map burst_packet bs, Inr inst')"
    and s2: "state inst' = IEC_61937_STATE_FIRST_0" by blast
  have "fsm_feed inst (concat (map ac3_burst (b # bs))) = (map burst_packet (b # bs), Inr inst')"
    by (simp add: fsm_feed_append f1 f2)
  with s2 show ?case by blast
qed

theorem valid_bursts_yield_callbacks_witness:
  "valid_ac3_burst (0x0001, [0xAB], 0xCD) \<and>
   valid_ac3_burst (0x0081, [0x0B, 0x77, 0x12], 0x00) \<and>
   state iec_61937_fsm_init = IEC_61937_STATE_FIRST_0 \<and>
   (\<exists>inst'. fsm_feed iec_61937_fsm_init
              (concat (map ac3_burst [(0x0001, [0xAB], 0xCD), (0x0081, [0x0B, 0x77, 0x12], 0x00)])) =
              ([Packet_cb 1 1 [0xAB], Packet_cb 1 3 [0x0B, 0x77, 0x12]], Inr inst') \<and>
            state inst' = IEC_61937_STATE_FIRST_0)"
proof -
  have v1: "valid_ac3_burst (0x0001, [0xAB], 0xCD)"
    by (simp add: valid_ac3_burst_def)
  have v2: "valid_ac3_burst (0x0081, [0x0B, 0x77, 0x12], 0x00)"
    by (simp add: valid_ac3_burst_def)
  have s: "state iec_61937_fsm_init = IEC_61937_STATE_FIRST_0"
    by (simp add: iec_61937_fsm_init_def)
  have "\<forall>b \<in> set [(0x0001, [0xAB], 0xCD), (0x0081, [0x0B, 0x77, 0x12], 0x00)]. valid_ac3_burst b"
    using v1 v2 by simp
  from valid_bursts_yield_callbacks [OF this s] v1 v2 s show ?thesis
    by (simp add: burst_packet_def)
qed

subsection \<open>A burst whose length field is zero\<close>

text \<open>
  With \<open>payload_len = 0\<close> and an odd \<open>bytes_received\<close> the machine never leaves PAYLOAD:
  \<^verbatim>\<open>payload_len - bytes_received\<close> wraps around, so every sample stores two bytes, and
  \<open>bytes_received\<close> stays odd and never equals \<open>payload_len\<close>. The sample that finds
  \<open>bytes_received = 65535\<close> writes past the end of the payload array.
\<close>

lemma zero_length_step:
  assumes st: "state inst = IEC_61937_STATE_PAYLOAD" and pl: "payload_len inst = 0"
      and br: "unat (bytes_received inst) = 2 * k + 1" and k: "k < 32768"
  shows "iec_61937_fsm_run inst x =
           (if k = 32767 then Inl Payload_write_out_of_bounds
            else Inr (True, None,
                   inst\<lparr>payload := (payload inst)
                           (2 * k + 1 := ucast (drop_bit 8 (bswap16 x)),
                            2 * k + 2 := ucast (bswap16 x)),
                        bytes_received := bytes_received inst + 2\<rparr>))"
proof -
  have "unat (- bytes_received inst) = 2 ^ 64 - (2 * k + 1)"
    using unat_sub_if_size [of 0 "bytes_received inst"] br by (simp add: word_size)
  then have ge: "2 \<le> payload_len inst - bytes_received inst"
    using k by (simp add: pl word_le_nat_alt)
  have u1: "unat (bytes_received inst + 1) = 2 * k + 2"
    using br k by (simp add: unat_word_ariths)
  have u2: "unat (bytes_received inst + 2) = 2 * k + 3"
    using br k by (simp add: unat_word_ariths)
  have ne: "0 \<noteq> bytes_received inst + 2"
    using u2 by (auto simp add: word_unat_eq_iff)
  have p2: "bytes_received inst + 1 + 1 = bytes_received inst + 2" by simp
  show ?thesis
    using st ge br u1 k ne
    by (simp add: iec_61937_fsm_run_def fsm_switch_def Let_def payload_put_def pl
          IEC_61937_MAX_BURST_PAYLOAD_def p2)
qed

lemma zero_length_runaway:
  "state inst = IEC_61937_STATE_PAYLOAD \<Longrightarrow> payload_len inst = 0 \<Longrightarrow>
   unat (bytes_received inst) = 2 * k + 1 \<Longrightarrow> k + length xs = 32768 \<Longrightarrow> xs \<noteq> [] \<Longrightarrow>
   fsm_feed inst xs = ([], Inl Payload_write_out_of_bounds)"
proof (induction xs arbitrary: inst k)
  case Nil
  then show ?case by simp
next
  case (Cons x xs)
  from Cons.prems have k: "k < 32768" by simp
  note step = zero_length_step [OF Cons.prems(1-3) k, of x]
  show ?case
  proof (cases "xs = []")
    case True
    with Cons.prems have "k = 32767" by simp
    with step show ?thesis by simp
  next
    case False
    then have "0 < length xs" by simp
    moreover from Cons.prems have "k + Suc (length xs) = 32768" by simp
    ultimately have nk: "k \<noteq> 32767" and k1: "Suc k + length xs = 32768" by linarith+
    let ?inst' = "inst\<lparr>payload := (payload inst)
                           (2 * k + 1 := ucast (drop_bit 8 (bswap16 x)),
                            2 * k + 2 := ucast (bswap16 x)),
                        bytes_received := bytes_received inst + 2\<rparr>"
    have u2: "unat (bytes_received ?inst') = 2 * Suc k + 1"
      using Cons.prems(3) k by (simp add: unat_word_ariths)
    have "fsm_feed ?inst' xs = ([], Inl Payload_write_out_of_bounds)"
      using Cons.prems(1,2) by (intro Cons.IH [OF _ _ u2 k1 False]) simp_all
    with step nk show ?thesis by simp
  qed
qed

lemma zero_length_burst_overruns_payload:
  assumes "length xs = 32768"
  shows "fsm_feed iec_61937_fsm_init
           (map bswap16 [0, 0, 0, 0, 0xF872, 0x4E1F, 0x0001, 0x0000, 0xABCD] @ xs) =
         ([], Inl Payload_write_out_of_bounds)"
proof -
  let ?inst = "\<lparr>state = IEC_61937_STATE_PAYLOAD, data_type = 1, payload_len = 0,
                bytes_received = 1, payload = (\<lambda>_. 0)(0 := 0xAB)\<rparr>"
  have h: "fsm_feed iec_61937_fsm_init
             (map bswap16 [0, 0, 0, 0, 0xF872, 0x4E1F, 0x0001, 0x0000, 0xABCD]) = ([], Inr ?inst)"
    by (simp add: fsm_eval)
  from assms have ne: "xs \<noteq> []" by auto
  have "fsm_feed ?inst xs = ([], Inl Payload_write_out_of_bounds)"
    using assms by (intro zero_length_runaway [where k = 0] ne) simp_all
  then show ?thesis by (simp only: fsm_feed_append h prod.case sum.case append_Nil)
qed

text \<open>
  A burst synthesized with an empty payload is such a burst: after it the machine is in
  PAYLOAD and the callback has not been called.
\<close>

lemma empty_payload_burst_stalls:
  "fsm_feed iec_61937_fsm_init (ac3_burst (0x0001, [], pad)) =
     ([], Inr (iec_61937_fsm_init\<lparr>data_type := 1, state := IEC_61937_STATE_PAYLOAD\<rparr>))"
  by (simp add: ac3_burst_def ac3_burst_words_def fsm_eval)

section \<open>Properties of the mode arbiter\<close>

lemma process_chunk_locked:
  "process_chunk_iec_61937 fsm chunk = Inr (locked, cbs, fsm') \<Longrightarrow>
   locked = (True \<in> set (fsm_returns fsm (chunk_samples chunk)))"
proof (induction fsm chunk arbitrary: locked cbs fsm' rule: process_chunk_iec_61937.induct)
  case (1 inst)
  then show ?case by simp
next
  case (2 inst b)
  then show ?case by simp
next
  case (3 inst lo hi rest)
  then show ?case
    by (auto simp add: Let_def split: sum.splits prod.splits)
qed

lemma sinks_replay_append:
  "sinks_replay s (xs @ ys) = (case sinks_replay s xs of None \<Rightarrow> None | Some s' \<Rightarrow> sinks_replay s' ys)"
  by (induction s xs rule: sinks_replay.induct) auto

lemma handler_replay:
  "state_60958 inst = IEC_60958_STATE_61937 \<Longrightarrow>
   sinks_replay (p, True) (concat (map (iec_61937_packet_handler inst) cbs)) = Some (p, True)"
  by (induction cbs) (auto simp add: iec_61937_packet_handler_def)

lemma handler_silent:
  "state_60958 inst \<noteq> IEC_60958_STATE_61937 \<Longrightarrow>
   concat (map (iec_61937_packet_handler inst) cbs) = []"
  by (induction cbs) (auto simp add: iec_61937_packet_handler_def)

lemma handler_actions:
  "List.map_filter sink_call_action (concat (map (iec_61937_packet_handler inst) cbs)) = []"
  by (induction cbs) (auto simp add: iec_61937_packet_handler_def List.map_filter_simps)

lemma map_filter_append:
  "List.map_filter f (xs @ ys) = List.map_filter f xs @ List.map_filter f ys"
  by (simp add: List.map_filter_def)

lemma count_step:
  assumes "unat (n :: 64 word) < 64"
  shows "unat (n + 1) = Suc (unat n)" and "(64 \<le> n + 1) = (Suc (unat n) = 64)"
proof -
  show 1: "unat (n + 1) = Suc (unat n)"
    using assms by (simp add: unat_word_ariths)
  show "(64 \<le> n + 1) = (Suc (unat n) = 64)"
    using assms by (auto simp add: word_le_nat_alt 1)
qed

lemma arbiter_inv_init: "arbiter_inv (iec_60958_init l)"
  by (simp add: arbiter_inv_def iec_60958_init_def)

lemma iec_60958_process_step:
  assumes inv: "arbiter_inv inst"
      and pc: "process_chunk_iec_61937 (iec_61937_fsm_inst inst) chunk = Inr (locked, cbs, fsm')"
  shows "\<exists>calls inst'.
           iec_60958_process inst chunk = Inr (calls, inst') \<and>
           arbiter_inv inst' \<and>
           iec_61937_fsm_inst inst' = fsm' \<and>
           (List.map_filter sink_call_action calls,
            (state_60958 inst', unat (non_61937_chunks inst'))) =
             spec_arbiter_step (state_60958 inst, unat (non_61937_chunks inst)) locked chunk \<and>
           sinks_replay (pcm_sink_thread_run inst, ac3_sink_thread_run inst) calls =
             Some (pcm_sink_thread_run inst', ac3_sink_thread_run inst')"
proof (cases "state_60958 inst")
  case IEC_60958_STATE_UNKNOWN
  with inv have c: "unat (non_61937_chunks inst) < 64"
    and f: "\<not> pcm_sink_thread_run inst" "\<not> ac3_sink_thread_run inst"
    by (simp_all add: arbiter_inv_def)
  from IEC_60958_STATE_UNKNOWN have h: "concat (map (iec_61937_packet_handler inst) cbs) = []"
    by (simp add: handler_silent)
  show ?thesis
    using IEC_60958_STATE_UNKNOWN pc c f h count_step [OF c]
    by (simp add: iec_60958_process_def Let_def IEC_61937_DETECTION_WINDOW_def arbiter_inv_def
          spec_arbiter_step_def List.map_filter_simps del: concat_eq_Nil_conv)
next
  case IEC_60958_STATE_PCM
  with inv have f: "pcm_sink_thread_run inst" "\<not> ac3_sink_thread_run inst"
    by (simp_all add: arbiter_inv_def)
  from IEC_60958_STATE_PCM have h: "concat (map (iec_61937_packet_handler inst) cbs) = []"
    by (simp add: handler_silent)
  show ?thesis
    using IEC_60958_STATE_PCM pc f h
    by (simp add: iec_60958_process_def Let_def arbiter_inv_def
          spec_arbiter_step_def List.map_filter_simps del: concat_eq_Nil_conv)
next
  case IEC_60958_STATE_61937
  with inv have c: "unat (non_61937_chunks inst) < 64"
    and f: "\<not> pcm_sink_thread_run inst" "ac3_sink_thread_run inst"
    by (simp_all add: arbiter_inv_def)
  note h = handler_replay [OF IEC_60958_STATE_61937, of False cbs]
    handler_actions [of inst cbs]
  show ?thesis
    using IEC_60958_STATE_61937 pc c f h count_step [OF c]
    by (simp add: iec_60958_process_def Let_def IEC_61937_DETECTION_WINDOW_def arbiter_inv_def
          spec_arbiter_step_def List.map_filter_simps map_filter_append sinks_replay_append)
qed

lemma iec_60958_process_Inr:
  assumes "iec_60958_process inst chunk = Inr (calls, inst')"
  shows "\<exists>locked cbs fsm'.
           process_chunk_iec_61937 (iec_61937_fsm_inst inst) chunk = Inr (locked, cbs, fsm')"
  using assms
  by (cases "process_chunk_iec_61937 (iec_61937_fsm_inst inst) chunk"; cases "state_60958 inst")
     (auto simp add: iec_60958_process_def)

lemma iec_60958_feed_inv:
  "arbiter_inv inst \<Longrightarrow>
   (case iec_60958_feed inst chunks of
      (calls, r) \<Rightarrow>
        sinks_replay (pcm_sink_thread_run inst, ac3_sink_thread_run inst) calls \<noteq> None \<and>
        (case r of
           Inl e \<Rightarrow> True
         | Inr inst' \<Rightarrow>
             arbiter_inv inst' \<and>
             sinks_replay (pcm_sink_thread_run inst, ac3_sink_thread_run inst) calls =
               Some (pcm_sink_thread_run inst', ac3_sink_thread_run inst')))"
proof (induction chunks arbitrary: inst)
  case Nil
  then show ?case by simp
next
  case (Cons chunk chunks)
  show ?case
  proof (cases "iec_60958_process inst chunk")
    case (Inl e)
    then show ?thesis by simp
  next
    case (Inr t)
    obtain calls inst1 where t: "t = (calls, inst1)" by (cases t) auto
    with Inr have p: "iec_60958_process inst chunk = Inr (calls, inst1)" by simp
    from iec_60958_process_Inr [OF p] obtain locked cbs fsm' where
      pc: "process_chunk_iec_61937 (iec_61937_fsm_inst inst) chunk = Inr (locked, cbs, fsm')"
      by blast
    from iec_60958_process_step [OF Cons.prems pc] p
    have inv1: "arbiter_inv inst1"
      and r1: "sinks_replay (pcm_sink_thread_run inst, ac3_sink_thread_run inst) calls =
                 Some (pcm_sink_thread_run inst1, ac3_sink_thread_run inst1)"
      by auto
    from Cons.IH [OF inv1] p r1 show ?thesis
      by (auto simp add: sinks_replay_append split: prod.splits sum.splits)
  qed
qed

lemma preamble_chunk:
  "process_chunk_iec_61937 iec_61937_fsm_init
     [0, 0, 0, 0, 0, 0, 0, 0, 0xF8, 0x72, 0x4E, 0x1F, 0x00, 0x01, 0x00, 0x08, 0xAB, 0xCD] =
   Inr (True, [Packet_cb 1 1 [0xAB]],
        \<lparr>state = IEC_61937_STATE_FIRST_0, data_type = 1, payload_len = 1,
         bytes_received = 1, payload = (\<lambda>_. 0)(0 := 0xAB)\<rparr>)"
  by (simp add: fsm_eval bswap16_def)

text \<open>
  C6. In every state the arbiter reaches from its initial state (UNKNOWN, count 0), one
  chunk makes exactly the transition the specification describes, where \<open>locked\<close>, the
  result of \<^verbatim>\<open>process_chunk_iec_61937\<close>, says that some step of the state machine within
  the chunk returned true: the sink actions, the new mode and the new count of
  \<^verbatim>\<open>iec_60958_process\<close> are those of \<open>spec_arbiter_step\<close>.
\<close>

theorem arbiter_transitions:
  assumes reach: "snd (iec_60958_feed (iec_60958_init l) chunks) = Inr inst"
      and pc: "process_chunk_iec_61937 (iec_61937_fsm_inst inst) chunk = Inr (locked, cbs, fsm')"
  shows "\<exists>calls inst'.
           iec_60958_process inst chunk = Inr (calls, inst') \<and>
           iec_61937_fsm_inst inst' = fsm' \<and>
           locked = (True \<in> set (fsm_returns (iec_61937_fsm_inst inst) (chunk_samples chunk))) \<and>
           (List.map_filter sink_call_action calls,
            (state_60958 inst', unat (non_61937_chunks inst'))) =
             spec_arbiter_step (state_60958 inst, unat (non_61937_chunks inst)) locked chunk"
proof -
  from iec_60958_feed_inv [OF arbiter_inv_init, of l chunks] reach
  have inv: "arbiter_inv inst"
    by (auto split: prod.splits sum.splits)
  from iec_60958_process_step [OF inv pc] process_chunk_locked [OF pc]
  show ?thesis by blast
qed

theorem arbiter_transitions_witness:
  "snd (iec_60958_feed (iec_60958_init 0) []) = Inr (iec_60958_init 0) \<and>
   process_chunk_iec_61937 (iec_61937_fsm_inst (iec_60958_init 0))
     [0, 0, 0, 0, 0, 0, 0, 0, 0xF8, 0x72, 0x4E, 0x1F, 0x00, 0x01, 0x00, 0x08, 0xAB, 0xCD] =
     Inr (True, [Packet_cb 1 1 [0xAB]],
          \<lparr>state = IEC_61937_STATE_FIRST_0, data_type = 1, payload_len = 1,
           bytes_received = 1, payload = (\<lambda>_. 0)(0 := 0xAB)\<rparr>) \<and>
   (\<exists>calls inst'.
      iec_60958_process (iec_60958_init 0)
        [0, 0, 0, 0, 0, 0, 0, 0, 0xF8, 0x72, 0x4E, 0x1F, 0x00, 0x01, 0x00, 0x08, 0xAB, 0xCD] =
        Inr (calls, inst') \<and>
      List.map_filter sink_call_action calls = [Open_ac3_sink] \<and>
      state_60958 inst' = IEC_60958_STATE_61937 \<and>
      unat (non_61937_chunks inst') = 0)"
proof -
  let ?chunk = "[0, 0, 0, 0, 0, 0, 0, 0, 0xF8, 0x72, 0x4E, 0x1F, 0x00, 0x01, 0x00, 0x08, 0xAB, 0xCD] :: 8 word list"
  let ?fsm = "\<lparr>state = IEC_61937_STATE_FIRST_0, data_type = 1, payload_len = 1,
           bytes_received = 1, payload = (\<lambda>_. 0)(0 := 0xAB)\<rparr>"
  have reach: "snd (iec_60958_feed (iec_60958_init 0) []) = Inr (iec_60958_init 0)"
    by simp
  have pc: "process_chunk_iec_61937 (iec_61937_fsm_inst (iec_60958_init 0)) ?chunk =
              Inr (True, [Packet_cb 1 1 [0xAB]], ?fsm)"
    using preamble_chunk by (simp add: iec_60958_init_def)
  from arbiter_transitions [OF reach pc] obtain calls inst' where
    "iec_60958_process (iec_60958_init 0) ?chunk = Inr (calls, inst')"
    "(List.map_filter sink_call_action calls,
            (state_60958 inst', unat (non_61937_chunks inst'))) =
             spec_arbiter_step (state_60958 (iec_60958_init 0), unat (non_61937_chunks (iec_60958_init 0))) True ?chunk"
    by blast
  then have "\<exists>calls inst'.
      iec_60958_process (iec_60958_init 0) ?chunk = Inr (calls, inst') \<and>
      List.map_filter sink_call_action calls = [Open_ac3_sink] \<and>
      state_60958 inst' = IEC_60958_STATE_61937 \<and>
      unat (non_61937_chunks inst') = 0"
    by (simp add: spec_arbiter_step_def iec_60958_init_def)
  with reach pc show ?thesis by blast
qed

text \<open>
  C7. Along every run of the arbiter from its initial state at most one sink is open at
  any point of the sequence of sink calls (a sink is opened only while no sink is open,
  so on a mode switch the open sink is closed first), and after every chunk no sink is
  open in state UNKNOWN, exactly the PCM sink in state PCM and exactly the AC-3 sink in
  state 61937.
\<close>

theorem at_most_one_sink_open:
  "(case iec_60958_feed (iec_60958_init l) chunks of
      (calls, r) \<Rightarrow>
        sinks_replay (False, False) calls \<noteq> None \<and>
        (case r of
           Inl e \<Rightarrow> True
         | Inr inst \<Rightarrow>
             sinks_replay (False, False) calls =
               Some (pcm_sink_thread_run inst, ac3_sink_thread_run inst) \<and>
             pcm_sink_thread_run inst = (state_60958 inst = IEC_60958_STATE_PCM) \<and>
             ac3_sink_thread_run inst = (state_60958 inst = IEC_60958_STATE_61937)))"
  using iec_60958_feed_inv [OF arbiter_inv_init, of l chunks]
  by (auto simp add: arbiter_inv_def iec_60958_init_def split: prod.splits sum.splits)

theorem at_most_one_sink_open_witness:
  "fst (iec_60958_feed (iec_60958_init 0)
     [[0, 0, 0, 0, 0, 0, 0, 0, 0xF8, 0x72, 0x4E, 0x1F, 0x00, 0x01, 0x00, 0x08, 0xAB, 0xCD]]) =
     [Ac3_sink_open 0] \<and>
   sinks_replay (False, False) (fst (iec_60958_feed (iec_60958_init 0)
     [[0, 0, 0, 0, 0, 0, 0, 0, 0xF8, 0x72, 0x4E, 0x1F, 0x00, 0x01, 0x00, 0x08, 0xAB, 0xCD]])) \<noteq> None"
proof -
  let ?chunk = "[0, 0, 0, 0, 0, 0, 0, 0, 0xF8, 0x72, 0x4E, 0x1F, 0x00, 0x01, 0x00, 0x08, 0xAB, 0xCD] :: 8 word list"
  have pc: "process_chunk_iec_61937 (iec_61937_fsm_inst (iec_60958_init 0)) ?chunk =
              Inr (True, [Packet_cb 1 1 [0xAB]], \<lparr>state = IEC_61937_STATE_FIRST_0, data_type = 1, payload_len = 1,
           bytes_received = 1, payload = (\<lambda>_. 0)(0 := 0xAB)\<rparr>)"
    using preamble_chunk by (simp add: iec_60958_init_def)
  have e: "fst (iec_60958_feed (iec_60958_init 0) [?chunk]) = [Ac3_sink_open 0]"
    using pc
    by (simp add: iec_60958_process_def iec_60958_init_def iec_61937_packet_handler_def)
  from at_most_one_sink_open [of 0 "[?chunk]"]
  have "sinks_replay (False, False) (fst (iec_60958_feed (iec_60958_init 0) [?chunk])) \<noteq> None"
    by (simp split: prod.splits)
  with e show ?thesis by (rule conjI)
qed

section \<open>Properties of the ring buffers\<close>

lemma ac3_mask: "SAMPLE_BUFFER_SIZE_MASK (ac3_sink_consts H) = mask 15"
  by (simp add: SAMPLE_BUFFER_SIZE_MASK_def ac3_sink_consts_def mask_eq_decr_exp)

lemma pcm_mask: "SAMPLE_BUFFER_SIZE_MASK (pcm_sink_consts H) = mask 11"
  by (simp add: SAMPLE_BUFFER_SIZE_MASK_def pcm_sink_consts_def mask_eq_decr_exp)

lemma unat_and_mask:
  fixes x :: "32 word"
  shows "unat (x AND mask k) = unat x mod 2 ^ k"
proof -
  have "unat (x AND mask k) = unat (take_bit k x)" by (simp only: take_bit_eq_mask)
  also have "\<dots> = take_bit k (unat x)" by (rule unsigned_take_bit_eq)
  also have "\<dots> = unat x mod 2 ^ k" by (rule take_bit_eq_mod)
  finally show ?thesis .
qed

lemma masked_positions_distinct:
  fixes r :: "32 word"
  assumes "j < u" and "u < 2 ^ k" and "k \<le> 32"
  shows "(r + word_of_nat j) AND mask k \<noteq> (r + word_of_nat u) AND mask k"
proof
  assume eq: "(r + word_of_nat j) AND mask k = (r + word_of_nat u) AND mask k"
  have "(((r + word_of_nat u) AND mask k) - ((r + word_of_nat j) AND mask k)) AND mask k = 0"
    by (simp add: eq)
  then have "((r + word_of_nat u) - (r + word_of_nat j)) AND mask k = 0"
    by (simp only: mask_eqs)
  moreover have "(r + word_of_nat u) - (r + word_of_nat j) = (word_of_nat (u - j) :: 32 word)"
    using assms by (simp add: of_nat_diff)
  ultimately have z: "(word_of_nat (u - j) :: 32 word) AND mask k = 0" by simp
  have "(2 :: nat) ^ k \<le> 2 ^ 32" using assms by (intro power_increasing) simp_all
  then have lt: "u - j < 2 ^ 32" using assms by simp
  have un: "unat (word_of_nat (u - j) :: 32 word) = u - j"
    using lt by (simp add: unat_of_nat)
  have "unat ((word_of_nat (u - j) :: 32 word) AND mask k) = (u - j) mod 2 ^ k"
    by (simp add: unat_and_mask un)
  also have "\<dots> = u - j" using assms by simp
  finally have "unat ((word_of_nat (u - j) :: 32 word) AND mask k) \<noteq> 0"
    using assms by simp
  with z show False by simp
qed

lemma buffer_put_used:
  assumes m: "SAMPLE_BUFFER_SIZE_MASK c = mask k"
      and room: "Suc (unat (buffer_used c inst)) < 2 ^ k" and k: "k \<le> 32"
  shows "unat (buffer_used c (buffer_put c inst v)) = Suc (unat (buffer_used c inst))"
proof -
  let ?u = "buffer_used c inst"
  have "buffer_used c (buffer_put c inst v) = (?u + 1) AND mask k"
    by (simp add: buffer_used_def buffer_put_def m mask_eqs algebra_simps)
  moreover have "(2 :: nat) ^ k \<le> 2 ^ 32" using k by (intro power_increasing) simp_all
  then have "unat (?u + 1) = Suc (unat ?u)"
    using room by (simp add: unat_word_ariths)
  then have "unat ((?u + 1) AND mask k) = Suc (unat ?u)"
    using room by (simp add: unat_and_mask)
  ultimately show ?thesis by simp
qed

lemma buffer_put_contents:
  assumes m: "SAMPLE_BUFFER_SIZE_MASK c = mask k"
      and w: "write_idx inst AND mask k = write_idx inst"
      and room: "Suc (unat (buffer_used c inst)) < 2 ^ k" and k: "k \<le> 32"
  shows "buffer_contents c (buffer_put c inst v) = buffer_contents c inst @ [v]"
proof -
  let ?u = "unat (buffer_used c inst)"
  let ?r = "read_idx inst"
  let ?pos = "\<lambda>j. unat ((?r + word_of_nat j) AND mask k)"
  have last: "(?r + buffer_used c inst) AND mask k = write_idx inst"
  proof -
    have "(?r + buffer_used c inst) AND mask k = (?r + (write_idx inst - ?r)) AND mask k"
      by (simp add: buffer_used_def m mask_eqs)
    then show ?thesis using w by simp
  qed
  have other: "?pos j \<noteq> unat (write_idx inst)" if "j < ?u" for j
  proof -
    from that room have "(?r + word_of_nat j) AND mask k \<noteq> (?r + word_of_nat ?u) AND mask k"
      by (intro masked_positions_distinct k) simp_all
    then show ?thesis by (simp add: last word_unat_eq_iff)
  qed
  have "buffer_contents c (buffer_put c inst v) =
          map (\<lambda>j. ((buffer inst)(unat (write_idx inst) := v)) (?pos j)) [0..<Suc ?u]"
    unfolding buffer_contents_def buffer_put_used [OF m room k]
    by (simp add: buffer_put_def m)
  also have "\<dots> = map (\<lambda>j. buffer inst (?pos j)) [0..<?u] @ [v]"
    using other by (simp add: last)
  finally show ?thesis by (simp add: buffer_contents_def m)
qed

lemma buffer_put_write_idx:
  assumes m: "SAMPLE_BUFFER_SIZE_MASK c = mask k"
  shows "write_idx (buffer_put c inst v) AND mask k = write_idx (buffer_put c inst v)"
    and "read_idx (buffer_put c inst v) = read_idx inst"
  by (simp_all add: buffer_put_def m)

lemma buffer_puts:
  assumes m: "SAMPLE_BUFFER_SIZE_MASK c = mask k" and k: "k \<le> 32"
  shows "write_idx inst AND mask k = write_idx inst \<Longrightarrow>
         unat (buffer_used c inst) + length vs < 2 ^ k \<Longrightarrow>
         buffer_contents c (foldl (buffer_put c) inst vs) = buffer_contents c inst @ vs \<and>
         unat (buffer_used c (foldl (buffer_put c) inst vs)) = unat (buffer_used c inst) + length vs \<and>
         read_idx (foldl (buffer_put c) inst vs) = read_idx inst \<and>
         write_idx (foldl (buffer_put c) inst vs) AND mask k = write_idx (foldl (buffer_put c) inst vs)"
proof (induction vs arbitrary: inst)
  case Nil
  then show ?case by simp
next
  case (Cons v vs)
  from Cons.prems have room: "Suc (unat (buffer_used c inst)) < 2 ^ k" by simp
  note u = buffer_put_used [OF m room k, of v]
  note ct = buffer_put_contents [OF m Cons.prems(1) room k, of v]
  note wi = buffer_put_write_idx [OF m, of inst v]
  from Cons.prems u have "unat (buffer_used c (buffer_put c inst v)) + length vs < 2 ^ k"
    by simp
  from Cons.IH [OF wi(1) this] u ct wi(2) show ?case by simp
qed

lemma calculate_rate_ratio_buffer:
  "calculate_rate_ratio rnd c inst = (ratio, inst') \<Longrightarrow>
   buffer inst' = buffer inst \<and> read_idx inst' = read_idx inst \<and> write_idx inst' = write_idx inst \<and>
   thread_run inst' = thread_run inst"
  by (auto simp add: calculate_rate_ratio_def Let_def)

lemma pcm_queue_foldl:
  "pcm_queue c i n out inst = foldl (buffer_put c) inst (map out [i..<n])"
proof (induction c i n out inst rule: pcm_queue.induct)
  case (1 c i will_queue tmp_output_buf inst)
  show ?case
  proof (cases "i < will_queue")
    case True
    then have "[i..<will_queue] = i # [i + 1..<will_queue]" by (simp add: upt_rec)
    with True "1.IH" show ?thesis by (subst pcm_queue.simps) simp
  next
    case False
    then show ?thesis by (subst pcm_queue.simps) simp
  qed
qed

lemma ac3_queue_foldl:
  "ac3_queue c i gen out inst = foldl (buffer_put c) inst (concat (map (ac3_frame out) [i..<gen]))"
proof (induction c i gen out inst rule: ac3_queue.induct)
  case (1 c i output_frames_gen tmp_output_buf inst)
  show ?case
  proof (cases "i < output_frames_gen")
    case True
    let ?inst6 = "foldl (buffer_put c) inst (ac3_frame tmp_output_buf i)"
    have e6: "?inst6 =
        buffer_put c (buffer_put c (buffer_put c (buffer_put c (buffer_put c
          (buffer_put c inst (tmp_output_buf 0 i)) (tmp_output_buf 1 i)) (tmp_output_buf 2 i))
          (tmp_output_buf 3 i)) (tmp_output_buf 4 i)) (tmp_output_buf 5 i)"
      by (simp add: ac3_frame_def)
    have "ac3_queue c i output_frames_gen tmp_output_buf inst =
          ac3_queue c (i + 1) output_frames_gen tmp_output_buf ?inst6"
      using True by (subst ac3_queue.simps) (simp add: ac3_frame_def Let_def)
    also have "\<dots> = foldl (buffer_put c) ?inst6
                        (concat (map (ac3_frame tmp_output_buf) [i + 1..<output_frames_gen]))"
      unfolding e6 by (rule "1.IH" [OF True refl refl refl refl refl refl])
    also have "\<dots> = foldl (buffer_put c) inst
                        (concat (map (ac3_frame tmp_output_buf) (i # [i + 1..<output_frames_gen])))"
      by simp
    also have "i # [i + 1..<output_frames_gen] = [i..<output_frames_gen]"
      using True by (simp add: upt_rec)
    finally show ?thesis .
  next
    case False
    then show ?thesis by (subst ac3_queue.simps) simp
  qed
qed

lemma length_frames: "length (concat (map (ac3_frame out) [i..<gen])) = 6 * (gen - i)"
  by (induction gen) (auto simp add: ac3_frame_def)

lemma unat_mask_Suc:
  assumes "k \<le> 32"
  shows "unat (mask k :: 32 word) + 1 = 2 ^ k"
proof -
  have "uint (mask k :: 32 word) = mask k"
    using assms by (simp add: uint_mask_eq min_def)
  then have "uint (mask k :: 32 word) = 2 ^ k - 1"
    by (simp add: mask_eq_exp_minus_1)
  then have "int (unat (mask k :: 32 word)) + 1 = int (2 ^ k)"
    by simp
  then show ?thesis by linarith
qed

lemma buffer_space_avail_unat:
  assumes m: "SAMPLE_BUFFER_SIZE_MASK c = mask k" and k: "k \<le> 32"
  shows "unat (buffer_space_avail c inst) + unat (buffer_used c inst) + 1 = 2 ^ k"
proof -
  let ?u = "buffer_used c inst"
  have le: "?u \<le> mask k" by (simp add: buffer_used_def m word_and_le1)
  have um: "unat (mask k :: 32 word) + 1 = 2 ^ k"
    using k by (rule unat_mask_Suc)
  have "unat (buffer_space_avail c inst) = unat (mask k :: 32 word) - unat ?u"
    using le by (simp add: buffer_space_avail_def buffer_used_def m unat_sub)
  moreover from le have "unat ?u \<le> unat (mask k :: 32 word)" by (simp add: word_le_nat_alt)
  ultimately show ?thesis using um by simp
qed

lemma masked_iff_less:
  fixes w :: "32 word"
  assumes "k < 32"
  shows "(w AND mask k = w) = (w < 2 ^ k)"
  using assms less_mask_eq [of w k] and_mask_less' [of k w]
  by auto

lemma ac3_size: "SAMPLE_BUFFER_SIZE (ac3_sink_consts H) = 2 ^ 15"
  by (simp add: ac3_sink_consts_def)

lemma ac3_sink_process_cases:
  assumes w: "write_idx inst < SAMPLE_BUFFER_SIZE (ac3_sink_consts H)"
  shows "(let c = ac3_sink_consts H; inst' = ac3_sink_process rnd H inst gen out in
          if unat (buffer_space_avail c inst) < gen * 6
          then write_idx inst' = write_idx inst \<and> read_idx inst' = read_idx inst \<and>
               buffer inst' = buffer inst
          else read_idx inst' = read_idx inst \<and>
               write_idx inst' < SAMPLE_BUFFER_SIZE c \<and>
               unat (buffer_used c inst') = unat (buffer_used c inst) + gen * 6 \<and>
               buffer_contents c inst' =
                 buffer_contents c inst @ concat (map (ac3_frame out) [0..<gen]))"
proof -
  let ?c = "ac3_sink_consts H"
  obtain ratio inst1 where cr: "calculate_rate_ratio rnd ?c inst = (ratio, inst1)"
    by (cases "calculate_rate_ratio rnd ?c inst") auto
  let ?inst2 = "inst1\<lparr>src_ratio := ratio\<rparr>"
  from calculate_rate_ratio_buffer [OF cr]
  have same: "buffer ?inst2 = buffer inst" "read_idx ?inst2 = read_idx inst"
    "write_idx ?inst2 = write_idx inst"
    by simp_all
  then have av: "buffer_space_avail ?c ?inst2 = buffer_space_avail ?c inst"
    and us: "buffer_used ?c ?inst2 = buffer_used ?c inst"
    and ct: "buffer_contents ?c ?inst2 = buffer_contents ?c inst"
    by (simp_all add: buffer_space_avail_def buffer_used_def buffer_contents_def)
  have p: "ac3_sink_process rnd H inst gen out =
             (if unat (buffer_space_avail ?c inst) < gen * 6 then ?inst2
              else foldl (buffer_put ?c) ?inst2 (concat (map (ac3_frame out) [0..<gen])))"
    by (simp add: ac3_sink_process_def cr av ac3_queue_foldl Let_def)
  show ?thesis
  proof (cases "unat (buffer_space_avail ?c inst) < gen * 6")
    case True
    then show ?thesis by (simp add: p same Let_def)
  next
    case False
    have k: "(15 :: nat) \<le> 32" by simp
    have wm: "write_idx ?inst2 AND mask 15 = write_idx ?inst2"
      using w by (simp add: same ac3_size masked_iff_less)
    from buffer_space_avail_unat [OF ac3_mask k, of H inst] False
    have room: "unat (buffer_used ?c ?inst2) + length (concat (map (ac3_frame out) [0..<gen])) < 2 ^ 15"
      by (simp add: us length_frames)
    from buffer_puts [OF ac3_mask k wm room] False show ?thesis
      by (simp add: p Let_def us ct same length_frames ac3_size masked_iff_less mult.commute)
  qed
qed

lemma output_copy_indices:
  assumes k: "k < 32"
  shows "SAMPLE_BUFFER_SIZE_MASK c = mask k \<Longrightarrow> SAMPLE_BUFFER_SIZE c = 2 ^ k \<Longrightarrow>
         indices_in_buffer c inst \<Longrightarrow> indices_in_buffer c (snd (output_copy c i tmp inst))"
proof (induction c i tmp inst rule: output_copy.induct)
  case (1 c i tmp inst)
  show ?case
  proof (cases "i < unat (OUTPUT_CHUNK_SIZE c)")
    case True
    have "(read_idx inst + 1) AND mask k < 2 ^ k"
      using k by (intro and_mask_less') simp
    with "1.prems" have "indices_in_buffer c
        (inst\<lparr>read_idx := (read_idx inst + 1) AND SAMPLE_BUFFER_SIZE_MASK c\<rparr>)"
      by (simp add: indices_in_buffer_def)
    from "1.IH" [OF True "1.prems"(1,2) this] True show ?thesis
      by (subst output_copy.simps) simp
  next
    case False
    with "1.prems" show ?thesis by (subst output_copy.simps) simp
  qed
qed

lemma consume_indices:
  assumes m: "SAMPLE_BUFFER_SIZE_MASK c = mask k" and sz: "SAMPLE_BUFFER_SIZE c = 2 ^ k" and k: "k < 32"
      and i: "indices_in_buffer c inst"
  shows "indices_in_buffer c (consume c inst)"
  using output_copy_indices [OF k m sz i, of 0 "[]"] i
  by (auto simp add: consume_def output_thread_def split: prod.splits)

lemma ac3_sink_step_indices:
  assumes i: "indices_in_buffer (ac3_sink_consts H) inst"
  shows "indices_in_buffer (ac3_sink_consts H) (ac3_sink_step rnd H inst ev)"
proof (cases ev)
  case (Ac3_produce gen out)
  from i have w: "write_idx inst < SAMPLE_BUFFER_SIZE (ac3_sink_consts H)"
    by (simp add: indices_in_buffer_def)
  from ac3_sink_process_cases [OF w, of rnd gen out] i Ac3_produce show ?thesis
    by (auto simp add: Let_def indices_in_buffer_def split: if_splits)
next
  case Ac3_consume
  have k: "(15 :: nat) < 32" by simp
  from consume_indices [OF ac3_mask ac3_size k i] Ac3_consume show ?thesis by simp
qed

lemma ac3_sink_run_indices: "indices_in_buffer (ac3_sink_consts H) (ac3_sink_run rnd H evs)"
proof -
  have "indices_in_buffer (ac3_sink_consts H) inst \<Longrightarrow>
        indices_in_buffer (ac3_sink_consts H) (foldl (ac3_sink_step rnd H) inst evs)" for inst
    by (induction evs arbitrary: inst) (simp_all add: ac3_sink_step_indices)
  moreover have "indices_in_buffer (ac3_sink_consts H) (ac3_sink_open H)"
    by (simp add: indices_in_buffer_def ac3_sink_open_def sink_open_def ac3_sink_consts_def)
  ultimately show ?thesis by (simp add: ac3_sink_run_def)
qed

text \<open>
  C8. For every producer step of the AC-3 sink, in any state the sink reaches after
  \<^verbatim>\<open>ac3_sink_open\<close>: when the free space is smaller than \<open>output_frames_gen * 6\<close> the step
  leaves \<^verbatim>\<open>write_idx\<close>, \<^verbatim>\<open>read_idx\<close> and the buffer as they were (the whole frame is
  dropped); otherwise the fill grows by exactly \<open>output_frames_gen * 6\<close> and the queued
  samples are the old ones followed by the frames, each frame in the order of the
  channels 0 to 5 (FL, FR, FC, LFE, RL, RR).
\<close>

theorem ac3_frame_dropped_or_queued:
  "(let c = ac3_sink_consts H;
        inst = ac3_sink_run rnd H evs;
        inst' = ac3_sink_process rnd H inst gen out
    in if unat (buffer_space_avail c inst) < gen * 6
       then write_idx inst' = write_idx inst \<and> read_idx inst' = read_idx inst \<and>
            buffer inst' = buffer inst
       else read_idx inst' = read_idx inst \<and>
            unat (buffer_used c inst') = unat (buffer_used c inst) + gen * 6 \<and>
            buffer_contents c inst' =
              buffer_contents c inst @ concat (map (ac3_frame out) [0..<gen]))"
proof -
  have "write_idx (ac3_sink_run rnd H evs) < SAMPLE_BUFFER_SIZE (ac3_sink_consts H)"
    using ac3_sink_run_indices [of H rnd evs] by (simp add: indices_in_buffer_def)
  from ac3_sink_process_cases [OF this, of rnd gen out] show ?thesis
    by (simp add: Let_def)
qed

theorem ac3_frame_dropped_or_queued_witness:
  "unat (buffer_used (ac3_sink_consts 16)
           (ac3_sink_process (\<lambda>x. x) 16 (ac3_sink_run (\<lambda>x. x) 16 []) 1536 (\<lambda>ch i. 0))) =
     384 + 1536 * 6 \<and>
   unat (buffer_space_avail (ac3_sink_consts 16)
           (ac3_sink_run (\<lambda>x. x) 16
              [Ac3_produce 1536 (\<lambda>ch i. 0), Ac3_produce 1536 (\<lambda>ch i. 0),
               Ac3_produce 1536 (\<lambda>ch i. 0)])) = 4735 \<and>
   write_idx (ac3_sink_process (\<lambda>x. x) 16
                (ac3_sink_run (\<lambda>x. x) 16
                   [Ac3_produce 1536 (\<lambda>ch i. 0), Ac3_produce 1536 (\<lambda>ch i. 0),
                    Ac3_produce 1536 (\<lambda>ch i. 0)]) 1536 (\<lambda>ch i. 0)) =
     write_idx (ac3_sink_run (\<lambda>x. x) 16
                  [Ac3_produce 1536 (\<lambda>ch i. 0), Ac3_produce 1536 (\<lambda>ch i. 0),
                   Ac3_produce 1536 (\<lambda>ch i. 0)])"
proof -
  let ?c = "ac3_sink_consts 16"
  let ?out = "\<lambda>(ch :: nat) (i :: nat). 0 :: real"
  let ?f = "Ac3_produce 1536 ?out"
  let ?run = "ac3_sink_run (\<lambda>x. x) 16"
  let ?next = "\<lambda>inst. ac3_sink_process (\<lambda>x. x) 16 inst 1536 ?out"
  have k: "(15 :: nat) \<le> 32" by simp
  note free = buffer_space_avail_unat [OF ac3_mask k, of 16]
  have s1: "?run [?f] = ?next (?run [])"
    and s2: "?run [?f, ?f] = ?next (?run [?f])"
    and s3: "?run [?f, ?f, ?f] = ?next (?run [?f, ?f])"
    by (simp_all add: ac3_sink_run_def)
  have u0: "unat (buffer_used ?c (?run [])) = 384"
    by (simp add: ac3_sink_run_def ac3_sink_open_def sink_open_def buffer_used_def
          SAMPLE_BUFFER_SIZE_MASK_def ac3_sink_consts_def)
  from ac3_frame_dropped_or_queued [of 16 "\<lambda>x. x" "[]" 1536 ?out] free [of "?run []"] u0
  have u1: "unat (buffer_used ?c (?run [?f])) = 9600"
    by (simp add: Let_def s1)
  from ac3_frame_dropped_or_queued [of 16 "\<lambda>x. x" "[?f]" 1536 ?out] free [of "?run [?f]"] u1
  have u2: "unat (buffer_used ?c (?run [?f, ?f])) = 18816"
    by (simp add: Let_def s2)
  from ac3_frame_dropped_or_queued [of 16 "\<lambda>x. x" "[?f, ?f]" 1536 ?out]
    free [of "?run [?f, ?f]"] u2
  have u3: "unat (buffer_used ?c (?run [?f, ?f, ?f])) = 28032"
    by (simp add: Let_def s3)
  from free [of "?run [?f, ?f, ?f]"] u3
  have f3: "unat (buffer_space_avail ?c (?run [?f, ?f, ?f])) = 4735"
    by simp
  from ac3_frame_dropped_or_queued [of 16 "\<lambda>x. x" "[?f, ?f, ?f]" 1536 ?out] f3
  have d: "write_idx (?next (?run [?f, ?f, ?f])) = write_idx (?run [?f, ?f, ?f])"
    by (simp add: Let_def)
  from u0 u1 s1 have q: "unat (buffer_used ?c (?next (?run []))) = 384 + 1536 * 6"
    by simp
  from q f3 d show ?thesis by simp
qed

lemma pcm_size: "SAMPLE_BUFFER_SIZE (pcm_sink_consts H) = 2 ^ 11"
  by (simp add: pcm_sink_consts_def)

lemma pcm_sink_process_cases:
  assumes w: "write_idx inst < SAMPLE_BUFFER_SIZE (pcm_sink_consts H)"
  shows "(let c = pcm_sink_consts H; inst' = pcm_sink_process rnd H inst gen out;
              will_queue = min (unat (buffer_space_avail c inst)) (gen * 2)
          in read_idx inst' = read_idx inst \<and>
             write_idx inst' < SAMPLE_BUFFER_SIZE c \<and>
             unat (buffer_used c inst') = unat (buffer_used c inst) + will_queue \<and>
             buffer_contents c inst' = buffer_contents c inst @ map out [0..<will_queue])"
proof -
  let ?c = "pcm_sink_consts H"
  let ?n = "min (unat (buffer_space_avail ?c inst)) (gen * 2)"
  obtain ratio inst1 where cr: "calculate_rate_ratio rnd ?c inst = (ratio, inst1)"
    by (cases "calculate_rate_ratio rnd ?c inst") auto
  let ?inst2 = "inst1\<lparr>src_ratio := ratio\<rparr>"
  from calculate_rate_ratio_buffer [OF cr]
  have same: "buffer ?inst2 = buffer inst" "read_idx ?inst2 = read_idx inst"
    "write_idx ?inst2 = write_idx inst"
    by simp_all
  then have av: "buffer_space_avail ?c ?inst2 = buffer_space_avail ?c inst"
    and us: "buffer_used ?c ?inst2 = buffer_used ?c inst"
    and ct: "buffer_contents ?c ?inst2 = buffer_contents ?c inst"
    by (simp_all add: buffer_space_avail_def buffer_used_def buffer_contents_def)
  have n: "(if unat (buffer_space_avail ?c inst) < gen * 2 then unat (buffer_space_avail ?c inst)
            else gen * 2) = ?n"
    by (simp add: min_def)
  have p: "pcm_sink_process rnd H inst gen out = foldl (buffer_put ?c) ?inst2 (map out [0..<?n])"
    by (simp add: pcm_sink_process_def cr av pcm_queue_foldl Let_def n)
  have k: "(11 :: nat) \<le> 32" by simp
  have wm: "write_idx ?inst2 AND mask 11 = write_idx ?inst2"
    using w by (simp add: same pcm_size masked_iff_less)
  from buffer_space_avail_unat [OF pcm_mask k, of H inst]
  have room: "unat (buffer_used ?c ?inst2) + length (map out [0..<?n]) < 2 ^ 11"
    by (simp add: us)
  from buffer_puts [OF pcm_mask k wm room] show ?thesis
    by (simp add: p Let_def us ct same pcm_size masked_iff_less)
qed

lemma pcm_sink_step_indices:
  assumes i: "indices_in_buffer (pcm_sink_consts H) inst"
  shows "indices_in_buffer (pcm_sink_consts H) (pcm_sink_step rnd H inst ev)"
proof (cases ev)
  case (Pcm_produce gen out)
  from i have w: "write_idx inst < SAMPLE_BUFFER_SIZE (pcm_sink_consts H)"
    by (simp add: indices_in_buffer_def)
  from pcm_sink_process_cases [OF w, of rnd gen out] i Pcm_produce show ?thesis
    by (simp add: Let_def indices_in_buffer_def)
next
  case Pcm_consume
  have k: "(11 :: nat) < 32" by simp
  from consume_indices [OF pcm_mask pcm_size k i] Pcm_consume show ?thesis by simp
qed

lemma pcm_sink_run_indices: "indices_in_buffer (pcm_sink_consts H) (pcm_sink_run rnd H evs)"
proof -
  have "indices_in_buffer (pcm_sink_consts H) inst \<Longrightarrow>
        indices_in_buffer (pcm_sink_consts H) (foldl (pcm_sink_step rnd H) inst evs)" for inst
    by (induction evs arbitrary: inst) (simp_all add: pcm_sink_step_indices)
  moreover have "indices_in_buffer (pcm_sink_consts H) (pcm_sink_open H)"
    by (simp add: indices_in_buffer_def pcm_sink_open_def sink_open_def pcm_sink_consts_def)
  ultimately show ?thesis by (simp add: pcm_sink_run_def)
qed

lemma pcm_fill_saturates:
  "write_idx inst < SAMPLE_BUFFER_SIZE (pcm_sink_consts H) \<Longrightarrow>
   (let c = pcm_sink_consts H;
        inst' = foldl (pcm_sink_step rnd H) inst (replicate n (Pcm_produce gen out))
    in read_idx inst' = read_idx inst \<and>
       write_idx inst' < SAMPLE_BUFFER_SIZE c \<and>
       unat (buffer_used c inst') = min 2047 (unat (buffer_used c inst) + n * (gen * 2)))"
proof (induction n arbitrary: inst)
  case 0
  have k: "(11 :: nat) \<le> 32" by simp
  from buffer_space_avail_unat [OF pcm_mask k, of H inst] 0 show ?case
    by (simp add: Let_def)
next
  case (Suc n)
  let ?c = "pcm_sink_consts H"
  let ?inst1 = "pcm_sink_process rnd H inst gen out"
  have k: "(11 :: nat) \<le> 32" by simp
  note av = buffer_space_avail_unat [OF pcm_mask k, of H inst]
  from pcm_sink_process_cases [OF Suc.prems, of rnd gen out]
  have r: "read_idx ?inst1 = read_idx inst"
    and w: "write_idx ?inst1 < SAMPLE_BUFFER_SIZE ?c"
    and u: "unat (buffer_used ?c ?inst1) =
              unat (buffer_used ?c inst) + min (unat (buffer_space_avail ?c inst)) (gen * 2)"
    by (simp_all add: Let_def)
  from Suc.IH [OF w] r u av show ?case
    by (simp add: Let_def min_def)
qed

text \<open>
  C2. The write index of the PCM ring buffer does not stay even: from the open state
  (\<^verbatim>\<open>write_idx\<close> = 128, \<^verbatim>\<open>read_idx\<close> = 0), eight producer steps of 128 frames each with no
  consumer step in between leave \<^verbatim>\<open>write_idx\<close> = 2047. The eighth step finds 127 free
  slots for 256 samples and queues 127 of them: the count is cut to the free space, which
  is odd whenever the fill is even, and is not rounded down to an even number.
\<close>

theorem pcm_write_idx_odd_after_overflow:
  "(let inst = pcm_sink_run rnd H (replicate 8 (Pcm_produce 128 out))
    in read_idx inst = 0 \<and> write_idx inst = 2047 \<and> \<not> even (write_idx inst))"
proof -
  let ?c = "pcm_sink_consts H"
  let ?inst = "pcm_sink_run rnd H (replicate 8 (Pcm_produce 128 out))"
  have w0: "write_idx (pcm_sink_open H) < SAMPLE_BUFFER_SIZE ?c"
    by (simp add: pcm_sink_open_def sink_open_def pcm_sink_consts_def)
  have u0: "unat (buffer_used ?c (pcm_sink_open H)) = 128"
    by (simp add: buffer_used_def pcm_sink_open_def sink_open_def pcm_sink_consts_def
          SAMPLE_BUFFER_SIZE_MASK_def)
  from pcm_fill_saturates [OF w0, of rnd 8 128 out]
  have r: "read_idx ?inst = 0" and w: "write_idx ?inst < 2048"
    and u: "unat (buffer_used ?c ?inst) = 2047"
    by (simp_all add: Let_def pcm_sink_run_def u0 pcm_sink_open_def sink_open_def
          pcm_sink_consts_def)
  from w have "write_idx ?inst AND mask 11 = write_idx ?inst"
    by (simp add: masked_iff_less)
  with r have "buffer_used ?c ?inst = write_idx ?inst"
    by (simp add: buffer_used_def pcm_mask)
  with u have "unat (write_idx ?inst) = 2047" by simp
  then have "write_idx ?inst = 2047" by (simp add: word_unat_eq_iff)
  with r show ?thesis by (simp add: Let_def)
qed

section \<open>Properties of the control loop\<close>

declare of_int_sint [simp del]

lemma rounding_mono: "rounding rnd \<Longrightarrow> x \<le> y \<Longrightarrow> rnd x \<le> rnd y"
  by (simp add: rounding_def)

lemma rounding_int: "rounding rnd \<Longrightarrow> \<bar>k\<bar> \<le> 2 ^ 53 \<Longrightarrow> rnd (real_of_int k) = real_of_int k"
  by (simp add: rounding_def)

lemma rounding_id: "rounding (\<lambda>x. x)"
  by (simp add: rounding_def)

lemma accum_exact:
  assumes r: "rounding rnd"
  shows "list_all (\<lambda>h. \<bar>sint h\<bar> \<le> B) hs \<Longrightarrow> \<bar>a\<bar> + int (length hs) * B \<le> 2 ^ 53 \<Longrightarrow>
         foldl (\<lambda>a h. rnd (a + real_of_int (sint h))) (real_of_int a) hs =
           real_of_int (a + sum_list (map sint hs)) \<and>
         \<bar>a + sum_list (map sint hs)\<bar> \<le> \<bar>a\<bar> + int (length hs) * B"
proof (induction hs arbitrary: a)
  case Nil
  then show ?case by simp
next
  case (Cons h hs)
  from Cons.prems have h: "\<bar>sint h\<bar> \<le> B" and hs: "list_all (\<lambda>h. \<bar>sint h\<bar> \<le> B) hs"
    by simp_all
  from h have B: "0 \<le> B" by linarith
  define m where "m = int (length hs) * B"
  have m0: "0 \<le> m" using B by (simp add: m_def)
  have prem: "\<bar>a\<bar> + (B + m) \<le> 2 ^ 53"
    using Cons.prems(2) by (simp add: m_def distrib_right)
  have b1: "\<bar>a + sint h\<bar> \<le> 2 ^ 53" using prem h m0 by linarith
  have b2: "\<bar>a + sint h\<bar> + int (length hs) * B \<le> 2 ^ 53"
    unfolding m_def [symmetric] using prem h by linarith
  have e: "rnd (real_of_int a + real_of_int (sint h)) = real_of_int (a + sint h)"
    using rounding_int [OF r b1] by (simp)
  from Cons.IH [OF hs b2]
  have f: "foldl (\<lambda>a h. rnd (a + real_of_int (sint h))) (real_of_int (a + sint h)) hs =
             real_of_int (a + sint h + sum_list (map sint hs))"
    and g: "\<bar>a + sint h + sum_list (map sint hs)\<bar> \<le> \<bar>a + sint h\<bar> + m"
    by (simp_all add: m_def)
  have "\<bar>a + sum_list (map sint (h # hs))\<bar> \<le> \<bar>a\<bar> + (B + m)"
    using g h by (simp add: add.assoc)
  then have "\<bar>a + sum_list (map sint (h # hs))\<bar> \<le> \<bar>a\<bar> + int (length (h # hs)) * B"
    by (simp add: m_def distrib_right)
  moreover have "foldl (\<lambda>a h. rnd (a + real_of_int (sint h))) (real_of_int a) (h # hs) =
           real_of_int (a + sum_list (map sint (h # hs)))"
    using f by (simp add: e add.assoc)
  ultimately show ?case by blast
qed

lemma list_all_update:
  "list_all P xs \<Longrightarrow> P v \<Longrightarrow> list_all P (xs[i := v])"
  using set_update_subset_insert [of xs i v] by (auto simp add: list_all_iff)

lemma clamped_offset:
  fixes T offset0 :: "32 word"
  assumes "0 \<le> sint T" and "sint (- T) = - sint T"
  shows "- sint T \<le> sint (if offset0 <s - T then - T else if T <s offset0 then T else offset0) \<and>
         sint (if offset0 <s - T then - T else if T <s offset0 then T else offset0) \<le> sint T"
  using assms by (auto simp add: word_sless_alt)

lemma histidx_in_range:
  assumes "0 < H" and "H \<le> 2 ^ 32"
  shows "unat (x AND (word_of_nat H - 1 :: 32 word)) < H"
proof -
  have "unat (word_of_nat H - 1 :: 32 word) = H - 1"
  proof (cases "H = 2 ^ 32")
    case True
    then have "(word_of_nat H :: 32 word) = 0" by simp
    with True show ?thesis by simp
  next
    case False
    with assms have lt: "H < 2 ^ 32" by simp
    then have u: "unat (word_of_nat H :: 32 word) = H" by (simp add: unat_of_nat)
    with assms have "(word_of_nat H :: 32 word) \<noteq> 0" by (auto simp add: word_unat_eq_iff)
    then have "unat (word_of_nat H - 1 :: 32 word) = unat (word_of_nat H :: 32 word) - 1"
      by (rule unat_minus_one)
    with u show ?thesis by simp
  qed
  moreover have "unat (x AND (word_of_nat H - 1 :: 32 word)) \<le> unat (word_of_nat H - 1 :: 32 word)"
    by (simp add: word_and_le1 word_le_nat_alt [symmetric])
  ultimately show ?thesis using assms by simp
qed

lemma calculate_rate_ratio_bounds:
  assumes r: "rounding rnd"
      and H: "0 < BUFFER_HIST_SIZE c"
      and Hle: "BUFFER_HIST_SIZE c \<le> 2 ^ 32"
      and HT: "int (BUFFER_HIST_SIZE c) * sint (BUFFER_TARGET_SAMPLES c) \<le> 2 ^ 53"
      and T0: "0 \<le> sint (BUFFER_TARGET_SAMPLES c)"
      and Tn: "sint (- BUFFER_TARGET_SAMPLES c) = - sint (BUFFER_TARGET_SAMPLES c)"
      and G: "0 \<le> LOOP_GAIN c"
      and inv: "history_clamped c inst"
  shows "ratio_in_bounds rnd c (fst (calculate_rate_ratio rnd c inst)) \<and>
         history_clamped c (snd (calculate_rate_ratio rnd c inst))"
proof -
  let ?T = "sint (BUFFER_TARGET_SAMPLES c)"
  let ?H = "BUFFER_HIST_SIZE c"
  define offset where "offset =
     (if BUFFER_TARGET_SAMPLES c - buffer_used c inst <s - BUFFER_TARGET_SAMPLES c
      then - BUFFER_TARGET_SAMPLES c
      else if BUFFER_TARGET_SAMPLES c <s BUFFER_TARGET_SAMPLES c - buffer_used c inst
      then BUFFER_TARGET_SAMPLES c
      else BUFFER_TARGET_SAMPLES c - buffer_used c inst)"
  let ?hs = "(history inst)[unat (histidx inst) := offset]"
  let ?total = "foldl (\<lambda>a h. rnd (a + real_of_int (sint h))) 0 ?hs"
  let ?accum = "rnd (?total / real ?H)"
  let ?G = "rnd (LOOP_GAIN c)"
  have ratio: "fst (calculate_rate_ratio rnd c inst) = rnd (rnd (?G * ?accum) + 1)"
    and hist: "history (snd (calculate_rate_ratio rnd c inst)) = ?hs"
    and hidx: "histidx (snd (calculate_rate_ratio rnd c inst)) =
                 (histidx inst + 1) AND (word_of_nat ?H - 1)"
    by (simp_all add: calculate_rate_ratio_def Let_def offset_def)
  have off: "- ?T \<le> sint offset \<and> sint offset \<le> ?T"
    unfolding offset_def by (rule clamped_offset [OF T0 Tn])
  from inv have len: "length ?hs = ?H"
    by (simp add: history_clamped_def)
  from inv have "list_all (\<lambda>h. - ?T \<le> sint h \<and> sint h \<le> ?T) (history inst)"
    by (simp add: history_clamped_def)
  then have all: "list_all (\<lambda>h. - ?T \<le> sint h \<and> sint h \<le> ?T) ?hs"
    using off by (rule list_all_update)
  from all have abs: "list_all (\<lambda>h. \<bar>sint h\<bar> \<le> ?T) ?hs"
    by (auto simp add: list_all_iff)
  have "\<bar>0::int\<bar> + int (length ?hs) * ?T \<le> 2 ^ 53" using HT len by simp
  from accum_exact [OF r abs this]
  have a0: "?total = real_of_int (sum_list (map sint ?hs))"
    and sb: "\<bar>sum_list (map sint ?hs)\<bar> \<le> int ?H * ?T"
    using len by simp_all
  let ?S = "sum_list (map sint ?hs)"
  have Hr: "0 < real ?H" using H by simp
  have "\<bar>real_of_int ?S\<bar> \<le> real ?H * real_of_int ?T"
    using sb by (metis of_int_abs of_int_le_iff of_int_mult of_int_of_nat_eq)
  then have q: "- real_of_int ?T \<le> real_of_int ?S / real ?H"
              "real_of_int ?S / real ?H \<le> real_of_int ?T"
    using Hr by (simp_all add: pos_le_divide_eq pos_divide_le_eq abs_le_iff mult.commute) 
  have Tb: "\<bar>?T\<bar> \<le> 2 ^ 53" "\<bar>- ?T\<bar> \<le> 2 ^ 53"
  proof -
    have "1 * ?T \<le> int ?H * ?T" using H T0 by (intro mult_right_mono) simp_all
    with HT T0 show "\<bar>?T\<bar> \<le> 2 ^ 53" "\<bar>- ?T\<bar> \<le> 2 ^ 53" by simp_all
  qed
  have fixT: "rnd (real_of_int ?T) = real_of_int ?T" "rnd (- real_of_int ?T) = - real_of_int ?T"
    using rounding_int [OF r Tb(1)] rounding_int [OF r Tb(2)] by simp_all
  have acc: "- real_of_int ?T \<le> ?accum" "?accum \<le> real_of_int ?T"
    using rounding_mono [OF r q(1)] rounding_mono [OF r q(2)] by (simp_all add: a0 fixT)
  have "rnd (real_of_int 0) = real_of_int 0" by (rule rounding_int [OF r]) simp
  then have "rnd 0 = 0" by simp
  with rounding_mono [OF r G] have G0: "0 \<le> ?G" by simp
  have m1: "?G * (- real_of_int ?T) \<le> ?G * ?accum"
    by (rule mult_left_mono [OF acc(1) G0])
  have m2: "?G * ?accum \<le> ?G * real_of_int ?T"
    by (rule mult_left_mono [OF acc(2) G0])
  have p1: "rnd (?G * (- real_of_int ?T)) + 1 \<le> rnd (?G * ?accum) + 1"
    using rounding_mono [OF r m1] by simp
  have p2: "rnd (?G * ?accum) + 1 \<le> rnd (?G * real_of_int ?T) + 1"
    using rounding_mono [OF r m2] by simp
  have "rnd (rnd (?G * (- real_of_int ?T)) + 1) \<le> rnd (rnd (?G * ?accum) + 1) \<and>
        rnd (rnd (?G * ?accum) + 1) \<le> rnd (rnd (?G * real_of_int ?T) + 1)"
    using rounding_mono [OF r p1] rounding_mono [OF r p2] by (rule conjI)
  then have "ratio_in_bounds rnd c (rnd (rnd (?G * ?accum) + 1))"
    unfolding ratio_in_bounds_def Let_def .
  moreover have "history_clamped c (snd (calculate_rate_ratio rnd c inst))"
    using len all histidx_in_range [OF H Hle] by (simp add: history_clamped_def hist hidx)
  ultimately show ?thesis by (simp add: ratio)
qed

lemma history_foldl_buffer_put:
  "history (foldl (buffer_put c) inst vs) = history inst \<and>
   histidx (foldl (buffer_put c) inst vs) = histidx inst"
  by (induction vs arbitrary: inst) (simp_all add: buffer_put_def)

lemma history_output_copy:
  "history (snd (output_copy c i tmp inst)) = history inst \<and>
   histidx (snd (output_copy c i tmp inst)) = histidx inst"
proof (induction c i tmp inst rule: output_copy.induct)
  case (1 c i tmp inst)
  then show ?case by (subst (1 2) output_copy.simps) simp
qed

lemma history_consume:
  "history (consume c inst) = history inst \<and> histidx (consume c inst) = histidx inst"
  using history_output_copy [of c 0 "[]" inst]
  by (auto simp add: consume_def output_thread_def split: prod.splits)

lemma pcm_side:
  assumes "0 < H" and "H \<le> 2 ^ 32"
  shows "0 < BUFFER_HIST_SIZE (pcm_sink_consts H)"
    and "BUFFER_HIST_SIZE (pcm_sink_consts H) \<le> 2 ^ 32"
    and "int (BUFFER_HIST_SIZE (pcm_sink_consts H)) * sint (BUFFER_TARGET_SAMPLES (pcm_sink_consts H)) \<le> 2 ^ 53"
    and "0 \<le> sint (BUFFER_TARGET_SAMPLES (pcm_sink_consts H))"
    and "sint (- BUFFER_TARGET_SAMPLES (pcm_sink_consts H)) = - sint (BUFFER_TARGET_SAMPLES (pcm_sink_consts H))"
    and "0 \<le> LOOP_GAIN (pcm_sink_consts H)"
  using assms by (simp_all add: pcm_sink_consts_def)

lemma ac3_side:
  assumes "0 < H" and "H \<le> 2 ^ 32"
  shows "0 < BUFFER_HIST_SIZE (ac3_sink_consts H)"
    and "BUFFER_HIST_SIZE (ac3_sink_consts H) \<le> 2 ^ 32"
    and "int (BUFFER_HIST_SIZE (ac3_sink_consts H)) * sint (BUFFER_TARGET_SAMPLES (ac3_sink_consts H)) \<le> 2 ^ 53"
    and "0 \<le> sint (BUFFER_TARGET_SAMPLES (ac3_sink_consts H))"
    and "sint (- BUFFER_TARGET_SAMPLES (ac3_sink_consts H)) = - sint (BUFFER_TARGET_SAMPLES (ac3_sink_consts H))"
    and "0 \<le> LOOP_GAIN (ac3_sink_consts H)"
  using assms by (simp_all add: ac3_sink_consts_def)

lemma history_clamped_open:
  "0 < BUFFER_HIST_SIZE c \<Longrightarrow> 0 \<le> sint (BUFFER_TARGET_SAMPLES c) \<Longrightarrow>
   history_clamped c (sink_open c)"
  by (simp add: history_clamped_def sink_open_def list_all_iff)

lemma pcm_sink_run_history:
  assumes r: "rounding rnd" and H: "0 < H" "H \<le> 2 ^ 32"
  shows "history_clamped (pcm_sink_consts H) (pcm_sink_run rnd H evs)"
proof -
  let ?c = "pcm_sink_consts H"
  note side = pcm_side [OF H]
  have step: "history_clamped ?c (pcm_sink_step rnd H inst ev)" if "history_clamped ?c inst" for inst ev
  proof (cases ev)
    case (Pcm_produce gen out)
    obtain ratio inst1 where cr: "calculate_rate_ratio rnd ?c inst = (ratio, inst1)"
      by (cases "calculate_rate_ratio rnd ?c inst") auto
    have "history (pcm_sink_process rnd H inst gen out) = history inst1"
      and "histidx (pcm_sink_process rnd H inst gen out) = histidx inst1"
      by (simp_all add: pcm_sink_process_def Let_def cr pcm_queue_foldl history_foldl_buffer_put)
    moreover from calculate_rate_ratio_bounds [OF r side that]
    have "history_clamped ?c inst1" by (simp add: cr)
    ultimately show ?thesis
      using Pcm_produce by (simp add: history_clamped_def)
  next
    case Pcm_consume
    with that show ?thesis by (simp add: history_consume history_clamped_def)
  qed
  have "history_clamped ?c inst \<Longrightarrow> history_clamped ?c (foldl (pcm_sink_step rnd H) inst evs)" for inst
    by (induction evs arbitrary: inst) (simp_all add: step)
  with history_clamped_open [OF side(1) side(4)] show ?thesis
    by (simp add: pcm_sink_run_def pcm_sink_open_def)
qed

lemma ac3_sink_run_history:
  assumes r: "rounding rnd" and H: "0 < H" "H \<le> 2 ^ 32"
  shows "history_clamped (ac3_sink_consts H) (ac3_sink_run rnd H evs)"
proof -
  let ?c = "ac3_sink_consts H"
  note side = ac3_side [OF H]
  have step: "history_clamped ?c (ac3_sink_step rnd H inst ev)" if "history_clamped ?c inst" for inst ev
  proof (cases ev)
    case (Ac3_produce gen out)
    obtain ratio inst1 where cr: "calculate_rate_ratio rnd ?c inst = (ratio, inst1)"
      by (cases "calculate_rate_ratio rnd ?c inst") auto
    have "history (ac3_sink_process rnd H inst gen out) = history inst1"
      and "histidx (ac3_sink_process rnd H inst gen out) = histidx inst1"
      by (simp_all add: ac3_sink_process_def Let_def cr ac3_queue_foldl history_foldl_buffer_put)
    moreover from calculate_rate_ratio_bounds [OF r side that]
    have "history_clamped ?c inst1" by (simp add: cr)
    ultimately show ?thesis
      using Ac3_produce by (simp add: history_clamped_def)
  next
    case Ac3_consume
    with that show ?thesis by (simp add: history_consume history_clamped_def)
  qed
  have "history_clamped ?c inst \<Longrightarrow> history_clamped ?c (foldl (ac3_sink_step rnd H) inst evs)" for inst
    by (induction evs arbitrary: inst) (simp_all add: step)
  with history_clamped_open [OF side(1) side(4)] show ?thesis
    by (simp add: ac3_sink_run_def ac3_sink_open_def)
qed

lemma ratio_in_bounds_exact:
  "ratio_in_bounds (\<lambda>x. x) c ratio =
     (1 - LOOP_GAIN c * real_of_int (sint (BUFFER_TARGET_SAMPLES c)) \<le> ratio \<and>
      ratio \<le> 1 + LOOP_GAIN c * real_of_int (sint (BUFFER_TARGET_SAMPLES c)))"
  by (auto simp add: ratio_in_bounds_def Let_def)

text \<open>
  C9. For every history the control loop can have (the state of a sink after any run from
  its open state) and every fill level (any values of the two indices), the ratio
  returned by \<^verbatim>\<open>calculate_rate_ratio\<close> lies between \<open>1 - G * T\<close> and \<open>1 + G * T\<close>, for the
  PCM sink (\<open>G\<close> = 0.000004, \<open>T\<close> = 128) and for the AC-3 sink (\<open>G\<close> = 0.0000013334,
  \<open>T\<close> = 384): with exact arithmetic as stated, and with any monotone rounding of the
  \<^verbatim>\<open>double\<close> operations with the two bounds rounded the same way. The history size is any
  \<open>H\<close> from 1 to \<open>2 ^ 32\<close>.
\<close>

theorem rate_ratio_bounds:
  assumes H: "0 < H" "H \<le> 2 ^ 32"
  shows "(rounding rnd \<longrightarrow>
            ratio_in_bounds rnd (pcm_sink_consts H)
              (fst (calculate_rate_ratio rnd (pcm_sink_consts H)
                      ((pcm_sink_run rnd H pevs)\<lparr>read_idx := r, write_idx := w\<rparr>))) \<and>
            ratio_in_bounds rnd (ac3_sink_consts H)
              (fst (calculate_rate_ratio rnd (ac3_sink_consts H)
                      ((ac3_sink_run rnd H aevs)\<lparr>read_idx := r, write_idx := w\<rparr>)))) \<and>
         (let ratio = fst (calculate_rate_ratio (\<lambda>x. x) (pcm_sink_consts H)
                             ((pcm_sink_run (\<lambda>x. x) H pevs)\<lparr>read_idx := r, write_idx := w\<rparr>))
          in 1 - 0.000004 * 128 \<le> ratio \<and> ratio \<le> 1 + 0.000004 * 128) \<and>
         (let ratio = fst (calculate_rate_ratio (\<lambda>x. x) (ac3_sink_consts H)
                             ((ac3_sink_run (\<lambda>x. x) H aevs)\<lparr>read_idx := r, write_idx := w\<rparr>))
          in 1 - 0.0000013334 * 384 \<le> ratio \<and> ratio \<le> 1 + 0.0000013334 * 384)"
proof -
  have pcm: "ratio_in_bounds rnd (pcm_sink_consts H)
              (fst (calculate_rate_ratio rnd (pcm_sink_consts H)
                      ((pcm_sink_run rnd H pevs)\<lparr>read_idx := r, write_idx := w\<rparr>)))"
    if r: "rounding rnd" for rnd
  proof -
    have "history_clamped (pcm_sink_consts H)
            ((pcm_sink_run rnd H pevs)\<lparr>read_idx := r, write_idx := w\<rparr>)"
      using pcm_sink_run_history [OF r H, of pevs] by (simp add: history_clamped_def)
    from calculate_rate_ratio_bounds [OF r pcm_side [OF H] this] show ?thesis by simp
  qed
  have ac3: "ratio_in_bounds rnd (ac3_sink_consts H)
              (fst (calculate_rate_ratio rnd (ac3_sink_consts H)
                      ((ac3_sink_run rnd H aevs)\<lparr>read_idx := r, write_idx := w\<rparr>)))"
    if r: "rounding rnd" for rnd
  proof -
    have "history_clamped (ac3_sink_consts H)
            ((ac3_sink_run rnd H aevs)\<lparr>read_idx := r, write_idx := w\<rparr>)"
      using ac3_sink_run_history [OF r H, of aevs] by (simp add: history_clamped_def)
    from calculate_rate_ratio_bounds [OF r ac3_side [OF H] this] show ?thesis by simp
  qed
  from pcm [OF rounding_id] ac3 [OF rounding_id] pcm ac3 show ?thesis
    by (simp add: ratio_in_bounds_exact Let_def pcm_sink_consts_def ac3_sink_consts_def)
qed

theorem rate_ratio_bounds_witness:
  "(0 :: nat) < 16 \<and> (16 :: nat) \<le> 2 ^ 32 \<and> rounding (\<lambda>x. x) \<and>
   fst (calculate_rate_ratio (\<lambda>x. x) (pcm_sink_consts 16)
          ((pcm_sink_run (\<lambda>x. x) 16 [])\<lparr>read_idx := 0, write_idx := 0\<rparr>)) = 1 + 0.000004 * 8 \<and>
   1 - 0.000004 * 128 \<le>
     fst (calculate_rate_ratio (\<lambda>x. x) (pcm_sink_consts 16)
            ((pcm_sink_run (\<lambda>x. x) 16 [])\<lparr>read_idx := 0, write_idx := 0\<rparr>)) \<and>
   fst (calculate_rate_ratio (\<lambda>x. x) (pcm_sink_consts 16)
          ((pcm_sink_run (\<lambda>x. x) 16 [])\<lparr>read_idx := 0, write_idx := 0\<rparr>)) \<le>
     1 + 0.000004 * 128 \<and>
   ratio_in_bounds (\<lambda>x. x) (ac3_sink_consts 16)
     (fst (calculate_rate_ratio (\<lambda>x. x) (ac3_sink_consts 16)
             ((ac3_sink_run (\<lambda>x. x) 16 [])\<lparr>read_idx := 0, write_idx := 0\<rparr>)))"
proof -
  have H: "(0 :: nat) < 16" "(16 :: nat) \<le> 2 ^ 32" by simp_all
  have e: "fst (calculate_rate_ratio (\<lambda>x. x) (pcm_sink_consts 16)
             ((pcm_sink_run (\<lambda>x. x) 16 [])\<lparr>read_idx := 0, write_idx := 0\<rparr>)) = 1 + 0.000004 * 8"
    by (simp add: calculate_rate_ratio_def pcm_sink_run_def pcm_sink_open_def sink_open_def
          pcm_sink_consts_def buffer_used_def SAMPLE_BUFFER_SIZE_MASK_def Let_def
          word_sless_alt eval_nat_numeral)
  from rate_ratio_bounds [OF H, where rnd = "\<lambda>x. x" and pevs = "[]" and aevs = "[]"
      and r = 0 and w = 0] rounding_id
  have "1 - 0.000004 * 128 \<le>
          fst (calculate_rate_ratio (\<lambda>x. x) (pcm_sink_consts 16)
                 ((pcm_sink_run (\<lambda>x. x) 16 [])\<lparr>read_idx := 0, write_idx := 0\<rparr>))"
    and "fst (calculate_rate_ratio (\<lambda>x. x) (pcm_sink_consts 16)
                 ((pcm_sink_run (\<lambda>x. x) 16 [])\<lparr>read_idx := 0, write_idx := 0\<rparr>)) \<le>
          1 + 0.000004 * 128"
    and "ratio_in_bounds (\<lambda>x. x) (ac3_sink_consts 16)
           (fst (calculate_rate_ratio (\<lambda>x. x) (ac3_sink_consts 16)
                   ((ac3_sink_run (\<lambda>x. x) 16 [])\<lparr>read_idx := 0, write_idx := 0\<rparr>)))"
    by (simp_all add: Let_def)
  with H rounding_id e show ?thesis by blast
qed

end
